theory Spec2Isabelle
  imports Complex_Main "HOL-Library.Word" "HOL-Library.Sublist" "HOL-Library.Log_Nat"
begin

section \<open>JavaScript strings and values\<close>

text \<open>
  A JavaScript string is a sequence of UTF-16 code units. The en dash (U+2013), the
  no-break space (U+00A0) and the micro sign (U+00B5) of the source are outside ASCII,
  so a code unit is a 16-bit word and not a \<open>char\<close>.
\<close>

type_synonym jschar = "16 word"
type_synonym jsstring = "jschar list"

definition ascii :: "string \<Rightarrow> jsstring" where
  "ascii s = map of_char s"

text \<open>
  \<open>Canonicalize\<close> of a case-insensitive regular expression without the \<open>u\<close> flag: the
  code unit of the upper-case form. The table holds the rows that can meet a character of
  the patterns of this program (the letters a-z, and the two characters whose upper-case
  form is U+039C, the upper-case form of the micro sign); every other code unit is left
  as it is. No code unit from 128 on is mapped below 128.
\<close>

definition canonicalize :: "jschar \<Rightarrow> jschar" where
  "canonicalize c =
     (if 0x61 \<le> c \<and> c \<le> 0x7A then c - 0x20
      else if c = 0xB5 \<or> c = 0x3BC then 0x39C
      else c)"

text \<open>A pattern of literal characters matched at the start of the input, ignoring case.\<close>

fun match_here :: "jsstring \<Rightarrow> jsstring \<Rightarrow> bool" where
  "match_here [] cs = True"
| "match_here (p # ps) [] = False"
| "match_here (p # ps) (c # cs) = (canonicalize p = canonicalize c \<and> match_here ps cs)"

text \<open>\<open>re.test(l)\<close> for a pattern of literal characters with flag \<open>i\<close>: a match at any position.\<close>

fun re_test :: "jsstring \<Rightarrow> jsstring \<Rightarrow> bool" where
  "re_test pat [] = match_here pat []"
| "re_test pat (c # cs) = (match_here pat (c # cs) \<or> re_test pat cs)"

section \<open>Records\<close>

text \<open>
  A Number is a double: a finite one is the rational it denotes, and the two infinities
  are values of their own. \<open>NaN\<close> is left out: neither \<open>parseFloat\<close> on a text matched by
  the number pattern nor \<open>JSON.parse\<close> yields it. The operator \<open><\<close> on such Numbers:
\<close>

datatype jsnumber = Finite rat | PosInfinity | NegInfinity

fun js_less :: "jsnumber \<Rightarrow> jsnumber \<Rightarrow> bool" where
  "js_less (Finite a) (Finite b) = (a < b)"
| "js_less (Finite a) PosInfinity = True"
| "js_less NegInfinity (Finite b) = True"
| "js_less NegInfinity PosInfinity = True"
| "js_less a b = False"

text \<open>
  A \<open>value\<close>, \<open>ref_lower\<close> or \<open>ref_upper\<close> is a Number or \<open>null\<close>, and \<open>null\<close> is \<open>None\<close>. For
  \<open>prediction\<close>, \<open>rule_overridden\<close> and \<open>sex\<close>, \<open>None\<close> is a property that the object does not
  have.
\<close>

record extracted_value =
  test :: jsstring
  line :: jsstring
  "value" :: "jsnumber option"
  ref_lower :: "jsnumber option"
  ref_upper :: "jsnumber option"

record prediction_rec = extracted_value +
  prediction :: "jsstring option"
  rule_overridden :: "bool option"

record item = extracted_value +
  sex :: "jsstring option"

section \<open>The hemoglobin rule of \<open>backend/routes/process.js\<close>\<close>

text \<open>
  \<open>ToNumber\<close>, as the relational operators apply it to \<open>p.value\<close>: \<open>null\<close> is \<open>+0\<close>. The
  test \<open>p.value > upper\<close> is \<open>upper < p.value\<close>.
\<close>

definition ToNumber :: "jsnumber option \<Rightarrow> jsnumber" where
  "ToNumber v = (case v of None \<Rightarrow> Finite 0 | Some x \<Rightarrow> x)"

definition hemoglobin_re :: jsstring where
  "hemoglobin_re = ascii ''hemoglobin''"

text \<open>\<open>items.find((x) => /hemoglobin/i.test(x.test))?.sex || "M"\<close>; the empty string is falsy.\<close>

definition rule_sex :: "item list \<Rightarrow> jsstring" where
  "rule_sex items =
     (case find (\<lambda>x. re_test hemoglobin_re (test x)) items of
        None \<Rightarrow> ascii ''M''
      | Some testItem \<Rightarrow>
          (case sex testItem of
             None \<Rightarrow> ascii ''M''
           | Some s \<Rightarrow> if s = [] then ascii ''M'' else s))"

text \<open>The body of the callback of \<open>preds.map\<close>: the object \<open>p\<close> after the call.\<close>

definition hemoglobin_callback :: "item list \<Rightarrow> prediction_rec \<Rightarrow> prediction_rec" where
  "hemoglobin_callback items p =
     (if re_test hemoglobin_re (test p) then
        (let sx = rule_sex items;
             lower = (if sx = ascii ''F'' then Finite 12.0 else Finite 13.0);
             upper = (if sx = ascii ''F'' then Finite 16.0 else Finite 17.5);
             p1 = (if js_less (ToNumber (value p)) lower
                   then p\<lparr>prediction := Some (ascii ''low'')\<rparr>
                   else if js_less upper (ToNumber (value p))
                   then p\<lparr>prediction := Some (ascii ''high'')\<rparr>
                   else p\<lparr>prediction := Some (ascii ''normal'')\<rparr>)
         in p1\<lparr>rule_overridden := Some True\<rparr>)
      else p)"

text \<open>
  The prediction objects live in a store and \<open>preds\<close> is the array of their references.
  The callback writes to the object it is given and returns the same reference, so the
  call yields the store after the writes and the new array of references.
\<close>

type_synonym addr = nat
type_synonym heap = "addr \<Rightarrow> prediction_rec"

fun applyHemoglobinRule :: "heap \<Rightarrow> addr list \<Rightarrow> item list \<Rightarrow> heap \<times> addr list" where
  "applyHemoglobinRule h [] items = (h, [])"
| "applyHemoglobinRule h (a # preds) items =
     (let h1 = h(a := hemoglobin_callback items (h a));
          (h2, out) = applyHemoglobinRule h1 preds items
      in (h2, a # out))"

section \<open>The parser \<open>parseExtractedValues\<close>\<close>

subsection \<open>Character classes\<close>

definition is_digit :: "jschar \<Rightarrow> bool" where
  "is_digit c = (0x30 \<le> c \<and> c \<le> 0x39)"

text \<open>\<open>\s\<close> of a regular expression, and what \<open>trim\<close> removes: white space and line terminators.\<close>

definition is_space :: "jschar \<Rightarrow> bool" where
  "is_space c =
     (c = 0x09 \<or> c = 0x0A \<or> c = 0x0B \<or> c = 0x0C \<or> c = 0x0D \<or> c = 0x20 \<or> c = 0xA0
      \<or> c = 0x1680 \<or> (0x2000 \<le> c \<and> c \<le> 0x200A) \<or> c = 0x2028 \<or> c = 0x2029
      \<or> c = 0x202F \<or> c = 0x205F \<or> c = 0x3000 \<or> c = 0xFEFF)"

text \<open>The class \<open>[-\<dots>]\<close> of the range pattern: hyphen-minus and en dash (U+2013).\<close>

definition is_dash :: "jschar \<Rightarrow> bool" where
  "is_dash c = (c = 0x2D \<or> c = 0x2013)"

definition dot :: jschar where
  "dot = 0x2E"

definition newline :: jschar where
  "newline = 0x0A"

subsection \<open>Normalisation and lines\<close>

text \<open>\<open>text.replace(/\r\n/g, "\n")\<close>\<close>

fun replace_crlf :: "jsstring \<Rightarrow> jsstring" where
  "replace_crlf (c # d # cs) =
     (if c = 0x0D \<and> d = 0x0A then newline # replace_crlf cs else c # replace_crlf (d # cs))"
| "replace_crlf cs = cs"

text \<open>\<open>.replace(/\u00A0/g, " ")\<close>\<close>

definition replace_nbsp :: "jsstring \<Rightarrow> jsstring" where
  "replace_nbsp cs = map (\<lambda>c. if c = 0xA0 then 0x20 else c) cs"

text \<open>
  \<open>s.split(/\n+/)\<close>: the pieces between the maximal runs of newlines; a run at the start
  or at the end of the string leaves an empty piece there.
\<close>

function split_newlines :: "jsstring \<Rightarrow> jsstring list" where
  "split_newlines cs =
     (let piece = takeWhile (\<lambda>c. c \<noteq> newline) cs;
          rest = dropWhile (\<lambda>c. c \<noteq> newline) cs
      in case rest of
           [] \<Rightarrow> [piece]
         | n # rest' \<Rightarrow> piece # split_newlines (dropWhile (\<lambda>c. c = newline) rest'))"
  by pat_completeness auto
termination
proof (relation "measure length", goal_cases)
  case 1
  show ?case by simp
next
  case (2 cs piece rest n rest')
  have "length (dropWhile (\<lambda>c. c = newline) rest') \<le> length rest'"
    by (rule length_dropWhile_le)
  moreover have "length rest \<le> length cs"
    using 2(2) by (simp add: length_dropWhile_le)
  ultimately show ?case using 2(3) by simp
qed

declare split_newlines.simps [simp del]

definition trim :: "jsstring \<Rightarrow> jsstring" where
  "trim l = rev (dropWhile is_space (rev (dropWhile is_space l)))"

text \<open>\<open>s.split(/\n+/).map(l => l.trim()).filter(Boolean)\<close>: the empty string is falsy.\<close>

definition split_lines :: "jsstring \<Rightarrow> jsstring list" where
  "split_lines s = filter (\<lambda>l. l \<noteq> []) (map trim (split_newlines s))"

subsection \<open>The registry\<close>

record test_entry =
  key :: jsstring
  names :: "jsstring list"

definition backslash :: jschar where
  "backslash = 0x5C"

text \<open>
  The registry, with every name as the string value of its literal: \<open>"\\("\<close> in the
  source is a backslash followed by a parenthesis. The micro sign is U+00B5.
\<close>

definition tests :: "test_entry list" where
  "tests =
     [\<lparr>key = ascii ''Hemoglobin'',
       names = [ascii ''Hemoglobin'',
                ascii ''Hemoglobin '' @ [backslash] @ ascii ''(g/dL'' @ [backslash] @ ascii '')'']\<rparr>,
      \<lparr>key = ascii ''RBC'',
       names = [ascii ''RBC'',
                ascii ''RBC '' @ [backslash] @ ascii ''(10'' @ [backslash] @ [0x5E] @ ascii ''6/''
                  @ [0xB5] @ ascii ''L'' @ [backslash] @ ascii '')'']\<rparr>,
      \<lparr>key = ascii ''WBC'', names = [ascii ''WBC'']\<rparr>,
      \<lparr>key = ascii ''Platelets'', names = [ascii ''Platelets'']\<rparr>,
      \<lparr>key = ascii ''Hematocrit'', names = [ascii ''Hematocrit'']\<rparr>,
      \<lparr>key = ascii ''MCV'', names = [ascii ''MCV'']\<rparr>,
      \<lparr>key = ascii ''MCH'', names = [ascii ''MCH'']\<rparr>,
      \<lparr>key = ascii ''MCHC'', names = [ascii ''MCHC'']\<rparr>,
      \<lparr>key = ascii ''Neutrophils'', names = [ascii ''Neutrophils'']\<rparr>,
      \<lparr>key = ascii ''Lymphocytes'', names = [ascii ''Lymphocytes'']\<rparr>,
      \<lparr>key = ascii ''Fasting Glucose'', names = [ascii ''Fasting Glucose'']\<rparr>,
      \<lparr>key = ascii ''Urea'', names = [ascii ''Urea'']\<rparr>,
      \<lparr>key = ascii ''Creatinine'', names = [ascii ''Creatinine'']\<rparr>,
      \<lparr>key = ascii ''Sodium'', names = [ascii ''Sodium'']\<rparr>,
      \<lparr>key = ascii ''Potassium'', names = [ascii ''Potassium'']\<rparr>,
      \<lparr>key = ascii ''ALT'', names = [ascii ''ALT'']\<rparr>,
      \<lparr>key = ascii ''AST'', names = [ascii ''AST'']\<rparr>]"

text \<open>
  \<open>new RegExp(nm, "i")\<close>. Every name of the registry is made of literal characters and of
  escaped characters (\<open>\(\<close>, \<open>\)\<close>, \<open>\^\<close>), each of which stands for the character after
  the backslash; so the pattern is the name without the backslashes.
\<close>

fun RegExp :: "jsstring \<Rightarrow> jsstring" where
  "RegExp (c # d # cs) = (if c = backslash then d # RegExp cs else c # RegExp (d # cs))"
| "RegExp cs = cs"

subsection \<open>Numbers and the inline range\<close>

text \<open>
  \<open>[0-9]+(?:\.[0-9]+)?\<close> at the start of the input: the matched text and the input after
  it. The digits are taken greedily, and the fraction when a dot and a digit follow.
\<close>

definition match_number :: "jsstring \<Rightarrow> (jsstring \<times> jsstring) option" where
  "match_number cs =
     (let ds = takeWhile is_digit cs; r = dropWhile is_digit cs
      in if ds = [] then None
         else (case r of
                 [] \<Rightarrow> Some (ds, [])
               | d # r' \<Rightarrow>
                   if d = dot \<and> takeWhile is_digit r' \<noteq> []
                   then Some (ds @ d # takeWhile is_digit r', dropWhile is_digit r')
                   else Some (ds, r)))"

text \<open>\<open>l.matchAll(/([0-9]+(?:\.[0-9]+)?)/g)\<close>: the matches from left to right, none overlapping.\<close>

function matchAll_numbers :: "jsstring \<Rightarrow> jsstring list" where
  "matchAll_numbers [] = []"
| "matchAll_numbers (c # cs) =
     (case match_number (c # cs) of
        None \<Rightarrow> matchAll_numbers cs
      | Some (m, rest) \<Rightarrow> m # matchAll_numbers rest)"
  by pat_completeness auto
termination
proof (relation "measure length", goal_cases)
  case 1
  show ?case by simp
next
  case (2 c cs)
  show ?case by simp
next
  case (3 c cs x2 m rest)
  have a: "length (dropWhile is_digit (c # cs)) \<le> length (c # cs)"
    by (rule length_dropWhile_le)
  have b: "takeWhile is_digit (c # cs) \<noteq> [] \<Longrightarrow> length (dropWhile is_digit (c # cs)) < length (c # cs)"
    by (simp split: if_splits add: length_dropWhile_le less_Suc_eq_le)
  have "length rest < length (c # cs)"
  proof (cases "dropWhile is_digit (c # cs)")
    case Nil
    with 3 show ?thesis
      by (auto simp: match_number_def Let_def split: if_splits)
  next
    case (Cons d r')
    have "length (dropWhile is_digit r') \<le> length r'"
      by (rule length_dropWhile_le)
    with 3 Cons a b show ?thesis
      by (auto simp: match_number_def Let_def split: if_splits)
  qed
  then show ?case by simp
qed

text \<open>
  The Number value of a rational \<open>q \<ge> 0\<close>: the double nearest to it, the one with an even
  significand when two are equally near, and \<open>Infinity\<close> when the rounded value reaches
  \<open>2^1024\<close>. A double is \<open>m * 2^e\<close> with \<open>m\<close> of at most 53 bits and \<open>e \<ge> -1074\<close>; the
  exponent \<open>e\<close> for \<open>q\<close> is 52 below its binade \<open>\<lfloor>log2 q\<rfloor>\<close>, and \<open>-1074\<close> for the subnormal
  numbers.
\<close>

definition round_half_even :: "rat \<Rightarrow> int" where
  "round_half_even x =
     (let f = \<lfloor>x\<rfloor>; r = x - of_int f
      in if r < 1 / 2 then f else if 1 / 2 < r then f + 1 else if even f then f else f + 1)"

definition binade :: "rat \<Rightarrow> int" where
  "binade q =
     (let (n, d) = quotient_of q; k = bitlen n - bitlen d
      in if 2 powi k \<le> q then k else k - 1)"

definition to_double :: "rat \<Rightarrow> jsnumber" where
  "to_double q =
     (if q = 0 then Finite 0
      else let e = max (binade q - 52) (- 1074);
               m = round_half_even (q / 2 powi e)
           in if 1024 < bitlen m + e then PosInfinity else Finite (of_int m * 2 powi e))"

text \<open>
  \<open>parseFloat\<close> of a text matched by the number pattern: the Number value of the decimal
  numeral, with the digits before the dot as an integer and the digits after it as a
  fraction of a power of ten.
\<close>

definition digits_value :: "jsstring \<Rightarrow> nat" where
  "digits_value ds = foldl (\<lambda>n c. 10 * n + (unat c - 48)) 0 ds"

definition parseFloat :: "jsstring \<Rightarrow> jsnumber" where
  "parseFloat m =
     (let ip = takeWhile (\<lambda>c. c \<noteq> dot) m;
          fp = drop 1 (dropWhile (\<lambda>c. c \<noteq> dot) m)
      in to_double (of_nat (digits_value ip) + of_nat (digits_value fp) / 10 ^ length fp))"

text \<open>
  \<open>([0-9]+(?:\.[0-9]+)?)\s*[-\<dots>]\s*([0-9]+(?:\.[0-9]+)?)\<close> at the start of the input: the
  texts of the two groups. Backtracking cannot give another match: the character after a
  shorter first number is a digit or a dot, and the one after a shorter run of white
  space is white space, and neither is what the pattern asks for next.
\<close>

definition range_here :: "jsstring \<Rightarrow> (jsstring \<times> jsstring) option" where
  "range_here cs =
     (case match_number cs of
        None \<Rightarrow> None
      | Some (a, r1) \<Rightarrow>
          (case dropWhile is_space r1 of
             [] \<Rightarrow> None
           | d # r2 \<Rightarrow>
               if is_dash d
               then (case match_number (dropWhile is_space r2) of
                       None \<Rightarrow> None
                     | Some (b, r3) \<Rightarrow> Some (a, b))
               else None))"

text \<open>\<open>l.match(\<dots>)\<close> without the flag \<open>g\<close>: the match at the leftmost position that has one.\<close>

fun range_match :: "jsstring \<Rightarrow> (jsstring \<times> jsstring) option" where
  "range_match [] = None"
| "range_match (c # cs) =
     (case range_here (c # cs) of
        Some ab \<Rightarrow> Some ab
      | None \<Rightarrow> range_match cs)"

subsection \<open>The scan\<close>

text \<open>The object pushed for a line \<open>l\<close> that matches a name of the entry \<open>t\<close>.\<close>

definition make_record :: "test_entry \<Rightarrow> jsstring \<Rightarrow> extracted_value" where
  "make_record t l =
     (let nums = map parseFloat (matchAll_numbers l);
          rangeMatch = range_match l;
          refLower = (case rangeMatch of None \<Rightarrow> None | Some (a, b) \<Rightarrow> Some (parseFloat a));
          refUpper = (case rangeMatch of None \<Rightarrow> None | Some (a, b) \<Rightarrow> Some (parseFloat b));
          v = (case nums of [] \<Rightarrow> None | n # ns \<Rightarrow> Some n)
      in \<lparr>test = key t, line = l, value = v, ref_lower = refLower, ref_upper = refUpper\<rparr>)"

text \<open>The loop over the names of one entry: a push and a \<open>break\<close> at the first name that matches.\<close>

fun scan_names ::
  "jsstring \<Rightarrow> test_entry \<Rightarrow> jsstring list \<Rightarrow> extracted_value list \<Rightarrow> extracted_value list" where
  "scan_names l t [] found = found"
| "scan_names l t (nm # nms) found =
     (if re_test (RegExp nm) l then found @ [make_record t l]
      else scan_names l t nms found)"

fun scan_tests ::
  "jsstring \<Rightarrow> test_entry list \<Rightarrow> extracted_value list \<Rightarrow> extracted_value list" where
  "scan_tests l [] found = found"
| "scan_tests l (t # ts) found = scan_tests l ts (scan_names l t (names t) found)"

fun scan_lines :: "jsstring list \<Rightarrow> extracted_value list \<Rightarrow> extracted_value list" where
  "scan_lines [] found = found"
| "scan_lines (l # ls) found = scan_lines ls (scan_tests l tests found)"

text \<open>The array \<open>found\<close> after the loops over a non-empty text.\<close>

definition found_records :: "jsstring \<Rightarrow> extracted_value list" where
  "found_records text =
     (let s = replace_nbsp (replace_crlf text);
          lines = split_lines s
      in scan_lines lines [])"

text \<open>The loop that removes duplicates, with the array \<open>dedup\<close> and the set \<open>seen\<close>.\<close>

fun dedup_loop ::
  "extracted_value list \<Rightarrow> extracted_value list \<Rightarrow> jsstring set \<Rightarrow> extracted_value list" where
  "dedup_loop [] dedup seen = dedup"
| "dedup_loop (f # fs) dedup seen =
     (if test f \<notin> seen then dedup_loop fs (dedup @ [f]) (insert (test f) seen)
      else dedup_loop fs dedup seen)"

text \<open>
  The text is a string or absent (\<open>null\<close>, \<open>undefined\<close>); \<open>!text\<close> holds for an absent text
  and for the empty string.
\<close>

definition parseExtractedValues :: "jsstring option \<Rightarrow> extracted_value list" where
  "parseExtractedValues text =
     (case text of
        None \<Rightarrow> []
      | Some s \<Rightarrow> if s = [] then [] else dedup_loop (found_records s) [] {})"

section \<open>Notions of the specification\<close>

text \<open>
  The words of the specification that the theorems below need, as predicates on texts:
  a \<open><number>\<close> is an integer or a decimal numeral (digits, then possibly a dot and
  digits).
\<close>

definition is_digits :: "jsstring \<Rightarrow> bool" where
  "is_digits s = (s \<noteq> [] \<and> list_all is_digit s)"

definition spec_number :: "jsstring \<Rightarrow> bool" where
  "spec_number s =
     (is_digits (takeWhile (\<lambda>c. c \<noteq> dot) s) \<and>
      (case dropWhile (\<lambda>c. c \<noteq> dot) s of [] \<Rightarrow> True | d # fs \<Rightarrow> is_digits fs))"

text \<open>
  The numeral \<open>num\<close> followed by \<open>rest\<close> is a whole numeric substring: no digit follows
  it, and no fraction follows an integer.
\<close>

definition spec_number_ends :: "jsstring \<Rightarrow> jsstring \<Rightarrow> bool" where
  "spec_number_ends num rest =
     (case rest of
        [] \<Rightarrow> True
      | c # rest' \<Rightarrow>
          \<not> is_digit c \<and>
          (c = dot \<and> dot \<notin> set num \<longrightarrow> (case rest' of [] \<Rightarrow> True | e # rest'' \<Rightarrow> \<not> is_digit e)))"

text \<open>
  The pattern \<open><number> [-|\<dots>] <number>\<close> with optional white space around the
  separator: its five parts.
\<close>

definition spec_range :: "jsstring \<Rightarrow> jsstring \<Rightarrow> jschar \<Rightarrow> jsstring \<Rightarrow> jsstring \<Rightarrow> bool" where
  "spec_range a ws1 d ws2 b =
     (spec_number a \<and> list_all is_space ws1 \<and> is_dash d \<and> list_all is_space ws2 \<and> spec_number b)"

text \<open>
  The number that a numeral denotes, digit by digit: the digits before the dot count
  units, tens and so on from the right, the digits after it tenths, hundredths and so on
  from the left.
\<close>

fun spec_units :: "jsstring \<Rightarrow> rat" where
  "spec_units [] = 0"
| "spec_units (c # cs) = of_nat (unat c - 48) + 10 * spec_units cs"

fun spec_tenths :: "jsstring \<Rightarrow> rat" where
  "spec_tenths [] = 0"
| "spec_tenths (c # cs) = (of_nat (unat c - 48) + spec_tenths cs) / 10"

definition spec_decimal :: "jsstring \<Rightarrow> rat" where
  "spec_decimal num =
     spec_units (rev (takeWhile (\<lambda>c. c \<noteq> dot) num))
       + spec_tenths (drop 1 (dropWhile (\<lambda>c. c \<noteq> dot) num))"

text \<open>
  The Number value of a rational, as the language defines it. The floating-point numbers
  are \<open>m * 2^e\<close> with \<open>|m| < 2^53\<close> and \<open>e \<ge> -1074\<close>; the one nearest to \<open>x\<close> is taken, and of
  two equally near the one that is an even multiple of their distance (the even
  significand); a result that reaches \<open>2^1024\<close> in size is an infinity.
\<close>

definition spec_float :: "rat \<Rightarrow> bool" where
  "spec_float d \<longleftrightarrow> (\<exists>m e. d = of_int m * 2 powi e \<and> \<bar>m\<bar> < 2 ^ 53 \<and> - 1074 \<le> e)"

definition spec_number_value :: "rat \<Rightarrow> jsnumber \<Rightarrow> bool" where
  "spec_number_value x v \<longleftrightarrow>
     (\<exists>u. spec_float u \<and>
          (\<forall>d. spec_float d \<longrightarrow> \<bar>u - x\<bar> \<le> \<bar>d - x\<bar>) \<and>
          (\<forall>d. spec_float d \<and> d \<noteq> u \<and> \<bar>d - x\<bar> = \<bar>u - x\<bar> \<longrightarrow>
               (\<exists>k. u = of_int (2 * k) * (d - u))) \<and>
          v = (if 2 powi 1024 \<le> u then PosInfinity
               else if u \<le> - (2 powi 1024) then NegInfinity else Finite u))"

text \<open>The Number \<open>v\<close> is the number that the numeral \<open>num\<close> denotes.\<close>

definition spec_denotes :: "jsstring \<Rightarrow> jsnumber \<Rightarrow> bool" where
  "spec_denotes num v \<longleftrightarrow> spec_number_value (spec_decimal num) v"

section \<open>Example inputs\<close>

text \<open>An extracted value as a prediction candidate: no prediction and no override flag yet.\<close>

definition candidate :: "extracted_value \<Rightarrow> prediction_rec" where
  "candidate e = extracted_value.extend e (prediction_rec.fields None None)"

text \<open>An extracted value as an item with a sex.\<close>

definition item_of :: "extracted_value \<Rightarrow> jsstring option \<Rightarrow> item" where
  "item_of e sx = extracted_value.extend e (item.fields sx)"

definition hemoglobin_11 :: extracted_value where
  "hemoglobin_11 =
     \<lparr>test = ascii ''Hemoglobin'', line = ascii ''Hemoglobin 11.0 g/dL'', value = Some (Finite 11.0),
      ref_lower = None, ref_upper = None\<rparr>"

definition hemoglobin_null :: extracted_value where
  "hemoglobin_null =
     \<lparr>test = ascii ''Hemoglobin'', line = ascii ''Hemoglobin: pending'', value = None,
      ref_lower = None, ref_upper = None\<rparr>"

definition glucose_105 :: extracted_value where
  "glucose_105 =
     \<lparr>test = ascii ''Fasting Glucose'', line = ascii ''Fasting Glucose 105 mg/dL (70-99)'',
      value = Some (Finite 105), ref_lower = Some (Finite 70), ref_upper = Some (Finite 99)\<rparr>"

text \<open>A store in which every address holds an object with the fields of \<open>e\<close>.\<close>

definition heap_of :: "extracted_value \<Rightarrow> heap" where
  "heap_of e = (\<lambda>a. candidate e)"

text \<open>Entries of the registry, and texts to run the parser on.\<close>

definition wbc_entry :: test_entry where
  "wbc_entry = \<lparr>key = ascii ''WBC'', names = [ascii ''WBC'']\<rparr>"

definition rbc_entry :: test_entry where
  "rbc_entry = \<lparr>key = ascii ''RBC'', names = [ascii ''RBC'',
                ascii ''RBC '' @ [backslash] @ ascii ''(10'' @ [backslash] @ [0x5E] @ ascii ''6/''
                  @ [0xB5] @ ascii ''L'' @ [backslash] @ ascii '')'']\<rparr>"

definition glucose_entry :: test_entry where
  "glucose_entry = \<lparr>key = ascii ''Fasting Glucose'', names = [ascii ''Fasting Glucose'']\<rparr>"

definition spec_example_line :: jsstring where
  "spec_example_line = ascii ''Hemoglobin (g/dL): 11.2  (13.0-17.0)''"

text \<open>
  The record of the line of the end-to-end example. The double nearest to 11.2 is
  \<open>6305039478318694 / 2^49\<close>.
\<close>

definition spec_example_record :: extracted_value where
  "spec_example_record =
     \<lparr>test = ascii ''Hemoglobin'', line = spec_example_line,
      value = Some (Finite (6305039478318694 / 2 ^ 49)),
      ref_lower = Some (Finite 13.0), ref_upper = Some (Finite 17.0)\<rparr>"

definition two_hemoglobin_lines :: jsstring where
  "two_hemoglobin_lines =
     ascii ''Hemoglobin 11.5'' @ [newline] @ ascii ''WBC 7'' @ [newline] @ ascii ''hemoglobin 14''"

definition no_test_text :: jsstring where
  "no_test_text = ascii ''Patient: J. Doe'' @ [0x0D, newline] @ ascii ''Date 2024-01-05''"

section \<open>The hemoglobin rule: theorems\<close>

text \<open>
  A pattern of literal characters matches a string when the string contains the pattern
  up to \<open>canonicalize\<close>, that is, as a substring ignoring case.
\<close>

lemma match_here_iff:
  "match_here pat cs \<longleftrightarrow>
     (\<exists>mid post. cs = mid @ post \<and> map canonicalize mid = map canonicalize pat)"
proof (induction pat cs rule: match_here.induct)
  case (1 cs)
  show ?case by simp
next
  case (2 p ps)
  show ?case by simp
next
  case (3 p ps c cs)
  show ?case
  proof
    assume "match_here (p # ps) (c # cs)"
    then obtain mid post where "canonicalize p = canonicalize c" "cs = mid @ post"
      "map canonicalize mid = map canonicalize ps"
      using 3 by auto
    then have "c # cs = (c # mid) @ post \<and> map canonicalize (c # mid) = map canonicalize (p # ps)"
      by simp
    then show "\<exists>mid post. c # cs = mid @ post \<and> map canonicalize mid = map canonicalize (p # ps)"
      by blast
  next
    assume "\<exists>mid post. c # cs = mid @ post \<and> map canonicalize mid = map canonicalize (p # ps)"
    then obtain mid post where m: "c # cs = mid @ post" "map canonicalize mid = map canonicalize (p # ps)"
      by blast
    then obtain mid' where "mid = c # mid'"
      by (cases mid) auto
    with m have "canonicalize p = canonicalize c \<and> cs = mid' @ post \<and>
        map canonicalize mid' = map canonicalize ps"
      by auto
    then show "match_here (p # ps) (c # cs)"
      using 3 by auto
  qed
qed

lemma re_test_iff:
  "re_test pat cs \<longleftrightarrow>
     (\<exists>pre mid post. cs = pre @ mid @ post \<and> map canonicalize mid = map canonicalize pat)"
proof (induction cs)
  case Nil
  show ?case by (auto simp: match_here_iff)
next
  case (Cons c cs)
  show ?case
  proof
    assume "re_test pat (c # cs)"
    then consider "match_here pat (c # cs)" | "re_test pat cs"
      by auto
    then show "\<exists>pre mid post. c # cs = pre @ mid @ post \<and> map canonicalize mid = map canonicalize pat"
    proof cases
      case 1
      then obtain mid post where "c # cs = [] @ mid @ post \<and> map canonicalize mid = map canonicalize pat"
        by (auto simp: match_here_iff)
      then show ?thesis by blast
    next
      case 2
      then obtain pre mid post where "cs = pre @ mid @ post \<and> map canonicalize mid = map canonicalize pat"
        using Cons.IH by blast
      then have "c # cs = (c # pre) @ mid @ post \<and> map canonicalize mid = map canonicalize pat"
        by simp
      then show ?thesis by blast
    qed
  next
    assume "\<exists>pre mid post. c # cs = pre @ mid @ post \<and> map canonicalize mid = map canonicalize pat"
    then obtain pre mid post where m: "c # cs = pre @ mid @ post"
      "map canonicalize mid = map canonicalize pat"
      by blast
    show "re_test pat (c # cs)"
    proof (cases pre)
      case Nil
      with m have "match_here pat (c # cs)"
        by (auto simp: match_here_iff)
      then show ?thesis by simp
    next
      case (Cons x pre')
      with m have "cs = pre' @ mid @ post"
        by simp
      with m(2) have "re_test pat cs"
        using Cons.IH by blast
      then show ?thesis by simp
    qed
  qed
qed

lemma callback_idem:
  "hemoglobin_callback items (hemoglobin_callback items p) = hemoglobin_callback items p"
  by (simp add: hemoglobin_callback_def Let_def)

text \<open>The store after the call: the callback has been applied to the objects of the array.\<close>

lemma apply_heap:
  "fst (applyHemoglobinRule h preds items) a =
     (if a \<in> set preds then hemoglobin_callback items (h a) else h a)"
proof (induction preds arbitrary: h)
  case Nil
  show ?case by simp
next
  case (Cons b preds)
  show ?case
    by (simp add: Let_def split_beta Cons.IH callback_idem)
qed

lemma apply_out: "snd (applyHemoglobinRule h preds items) = preds"
  by (induction preds arbitrary: h) (simp_all add: Let_def split_beta)

lemmas example_defs =
  heap_of_def candidate_def item_of_def hemoglobin_11_def hemoglobin_null_def glucose_105_def
  extracted_value.defs prediction_rec.defs item.defs

lemmas rule_defs =
  hemoglobin_callback_def hemoglobin_re_def rule_sex_def ascii_def canonicalize_def
  ToNumber_def Let_def

text \<open>
  C1. A record of the array whose test name matches \<open>/hemoglobin/i\<close> (it contains
  \<open>hemoglobin\<close> ignoring case, by \<open>re_test_iff\<close>) gets the override
  flag, and, when its value is a number \<open>v\<close>, the prediction that the fixed bounds give:
  12.0 and 16.0 when the sex is \<open>F\<close>, 13.0 and 17.5 when it is \<open>M\<close> or not given. The
  sex is the one of the first item with a hemoglobin name. Nothing else of the record
  (a range, an earlier prediction) enters the result. An infinite value is above, or
  below, every bound.
\<close>

theorem hemoglobin_override:
  assumes "a \<in> set preds" and "re_test hemoglobin_re (test (h a))"
    and "p' = fst (applyHemoglobinRule h preds items) a"
    and "sx = (case find (\<lambda>x. re_test hemoglobin_re (test x)) items of
                 None \<Rightarrow> None | Some x \<Rightarrow> sex x)"
  shows "rule_overridden p' = Some True \<and>
    (\<forall>v. value (h a) = Some (Finite v) \<longrightarrow>
       (sx = Some (ascii ''F'') \<longrightarrow>
          prediction p' = Some (if v < 12.0 then ascii ''low''
                                else if v > 16.0 then ascii ''high'' else ascii ''normal'')) \<and>
       (sx = Some (ascii ''M'') \<or> sx = None \<longrightarrow>
          prediction p' = Some (if v < 13.0 then ascii ''low''
                                else if v > 17.5 then ascii ''high'' else ascii ''normal''))) \<and>
    (value (h a) = Some PosInfinity \<longrightarrow> prediction p' = Some (ascii ''high'')) \<and>
    (value (h a) = Some NegInfinity \<longrightarrow> prediction p' = Some (ascii ''low''))"
proof -
  have p': "p' = hemoglobin_callback items (h a)"
    using assms(1,3) by (simp add: apply_heap)
  have F: "sx = Some (ascii ''F'') \<Longrightarrow> rule_sex items = ascii ''F''"
    using assms(4) by (auto simp: rule_sex_def ascii_def split: option.splits)
  have M: "sx = Some (ascii ''M'') \<or> sx = None \<Longrightarrow> rule_sex items = ascii ''M''"
    using assms(4) by (auto simp: rule_sex_def ascii_def split: option.splits)
  have MF: "ascii ''M'' \<noteq> ascii ''F''"
    by (simp add: ascii_def)
  show ?thesis
    using assms(2) F M MF by (auto simp: p' hemoglobin_callback_def Let_def ToNumber_def)
qed

theorem hemoglobin_override_witness:
  "rule_overridden (fst (applyHemoglobinRule (heap_of hemoglobin_11) [0]
                      [item_of hemoglobin_11 (Some (ascii ''F''))]) 0) = Some True
   \<and> prediction (fst (applyHemoglobinRule (heap_of hemoglobin_11) [0]
                      [item_of hemoglobin_11 (Some (ascii ''F''))]) 0) = Some (ascii ''low'')
   \<and> prediction (fst (applyHemoglobinRule (heap_of hemoglobin_11) [0] []) 0) = Some (ascii ''low'')"
proof -
  have m: "re_test hemoglobin_re (test (heap_of hemoglobin_11 0))"
    by (simp add: example_defs rule_defs)
  have v: "value (heap_of hemoglobin_11 0) = Some (Finite 11)"
    by (simp add: example_defs)
  have f: "(case find (\<lambda>x. re_test hemoglobin_re (test x)) [item_of hemoglobin_11 (Some (ascii ''F''))] of
              None \<Rightarrow> None | Some x \<Rightarrow> sex x) = Some (ascii ''F'')"
    by (simp add: example_defs rule_defs)
  have i: "(0::nat) \<in> set [0]"
    by simp
  show ?thesis
    using hemoglobin_override [where a = 0 and preds = "[0]" and h = "heap_of hemoglobin_11"
        and items = "[item_of hemoglobin_11 (Some (ascii ''F''))]", OF i m refl refl]
      hemoglobin_override [where a = 0 and preds = "[0]" and h = "heap_of hemoglobin_11"
        and items = "[]", OF i m refl refl] v f
    by simp
qed

text \<open>
  C2. A hemoglobin record with the value \<open>null\<close> is classified: \<open>null < 13.0\<close> compares
  \<open>+0\<close> with 13.0, so the prediction becomes \<open>low\<close> and the override flag is set.
\<close>

theorem null_hemoglobin_low:
  "prediction (fst (applyHemoglobinRule (heap_of hemoglobin_null) [0] []) 0) = Some (ascii ''low'')
   \<and> rule_overridden (fst (applyHemoglobinRule (heap_of hemoglobin_null) [0] []) 0) = Some True"
  by (simp add: example_defs rule_defs)

text \<open>
  C9, as the claim states it, fails: the object of a hemoglobin record in the store is
  not the same after the call.
\<close>

theorem input_mutated_counterexample:
  "fst (applyHemoglobinRule (heap_of hemoglobin_11) [0] []) 0 \<noteq> heap_of hemoglobin_11 0"
  by (simp add: example_defs rule_defs)

text \<open>
  C9, amended. The records returned are the input objects themselves, in the same order,
  and not copies. The call writes the fields \<open>prediction\<close> and \<open>rule_overridden\<close> of the
  objects of the array whose test name matches \<open>/hemoglobin/i\<close>, in place, and nothing
  else: an object with these two fields set back is the object before the call, and an
  object that is not in the array or has another test name is not touched.
\<close>

theorem rule_frame:
  "snd (applyHemoglobinRule h preds items) = preds \<and>
   (fst (applyHemoglobinRule h preds items) a)
      \<lparr>prediction := prediction (h a), rule_overridden := rule_overridden (h a)\<rparr> = h a \<and>
   (a \<notin> set preds \<or> \<not> re_test hemoglobin_re (test (h a)) \<longrightarrow>
      fst (applyHemoglobinRule h preds items) a = h a) \<and>
   (a \<in> set preds \<and> re_test hemoglobin_re (test (h a)) \<longrightarrow>
      rule_overridden (fst (applyHemoglobinRule h preds items) a) = Some True \<and>
      prediction (fst (applyHemoglobinRule h preds items) a) \<noteq> None)"
  by (simp add: apply_out apply_heap hemoglobin_callback_def Let_def)

theorem rule_frame_witness:
  "snd (applyHemoglobinRule (heap_of hemoglobin_11) [0] []) = [0] \<and>
   (fst (applyHemoglobinRule (heap_of hemoglobin_11) [0] []) 0)
      \<lparr>prediction := None, rule_overridden := None\<rparr> = heap_of hemoglobin_11 0 \<and>
   fst (applyHemoglobinRule (heap_of hemoglobin_11) [0] []) 1 = heap_of hemoglobin_11 1 \<and>
   fst (applyHemoglobinRule (heap_of glucose_105) [0] []) 0 = heap_of glucose_105 0 \<and>
   rule_overridden (fst (applyHemoglobinRule (heap_of hemoglobin_11) [0] []) 0) = Some True"
proof -
  have m: "re_test hemoglobin_re (test (heap_of hemoglobin_11 0))"
    by (simp add: example_defs rule_defs)
  have n: "\<not> re_test hemoglobin_re (test (heap_of glucose_105 0))"
    by (simp add: example_defs rule_defs)
  have f: "prediction (heap_of hemoglobin_11 0) = None"
    "rule_overridden (heap_of hemoglobin_11 0) = None"
    by (simp_all add: example_defs)
  have i: "(0::nat) \<in> set [0]" "(1::nat) \<notin> set [0]"
    by simp_all
  note t0 = rule_frame [where h = "heap_of hemoglobin_11" and preds = "[0]" and items = "[]"
      and a = 0]
  note t1 = rule_frame [where h = "heap_of hemoglobin_11" and preds = "[0]" and items = "[]"
      and a = 1]
  note t2 = rule_frame [where h = "heap_of glucose_105" and preds = "[0]" and items = "[]"
      and a = 0]
  have 1: "snd (applyHemoglobinRule (heap_of hemoglobin_11) [0] []) = [0]"
    by (rule t0 [THEN conjunct1])
  have 2: "(fst (applyHemoglobinRule (heap_of hemoglobin_11) [0] []) 0)
      \<lparr>prediction := None, rule_overridden := None\<rparr> = heap_of hemoglobin_11 0"
    using t0 [THEN conjunct2, THEN conjunct1] by (simp only: f)
  have 3: "fst (applyHemoglobinRule (heap_of hemoglobin_11) [0] []) 1 = heap_of hemoglobin_11 1"
    using t1 [THEN conjunct2, THEN conjunct2, THEN conjunct1] i(2) by blast
  have 4: "fst (applyHemoglobinRule (heap_of glucose_105) [0] []) 0 = heap_of glucose_105 0"
    using t2 [THEN conjunct2, THEN conjunct2, THEN conjunct1] n by blast
  have 5: "rule_overridden (fst (applyHemoglobinRule (heap_of hemoglobin_11) [0] []) 0) = Some True"
    using t0 [THEN conjunct2, THEN conjunct2, THEN conjunct2] i(1) m by blast
  from 1 2 3 4 5 show ?thesis
    by (intro conjI)
qed

text \<open>
  C10. The array returned holds the references of the input in the same order, and an
  object whose test name does not match \<open>/hemoglobin/i\<close> is the same after the call,
  in every field.
\<close>

theorem non_hemoglobin_unchanged:
  "snd (applyHemoglobinRule h preds items) = preds \<and>
   (\<not> re_test hemoglobin_re (test (h a)) \<longrightarrow> fst (applyHemoglobinRule h preds items) a = h a)"
  by (simp add: apply_out apply_heap hemoglobin_callback_def)

theorem non_hemoglobin_unchanged_witness:
  "snd (applyHemoglobinRule (heap_of glucose_105) [0, 1] []) = [0, 1] \<and>
   fst (applyHemoglobinRule (heap_of glucose_105) [0, 1] []) 0 = heap_of glucose_105 0"
proof -
  have "\<not> re_test hemoglobin_re (test (heap_of glucose_105 0))"
    by (simp add: example_defs rule_defs)
  then show ?thesis
    using non_hemoglobin_unchanged [where h = "heap_of glucose_105" and preds = "[0, 1]"
        and items = "[]" and a = 0]
    by blast
qed

section \<open>The Number value\<close>

text \<open>Rounding to the nearest integer, ties to the even one.\<close>

lemma round_half_even_cases:
  fixes x :: rat
  defines "F \<equiv> of_int \<lfloor>x\<rfloor>"
  shows "F \<le> x \<and> x < F + 1 \<and>
    (x - F < 1 / 2 \<and> round_half_even x = \<lfloor>x\<rfloor> \<or>
     1 / 2 < x - F \<and> round_half_even x = \<lfloor>x\<rfloor> + 1 \<or>
     x - F = 1 / 2 \<and> even (round_half_even x) \<and>
       (round_half_even x = \<lfloor>x\<rfloor> \<or> round_half_even x = \<lfloor>x\<rfloor> + 1))"
proof -
  have "F \<le> x" "x < F + 1"
    unfolding F_def by linarith+
  moreover have "x - F < 1 / 2 \<and> round_half_even x = \<lfloor>x\<rfloor> \<or>
     1 / 2 < x - F \<and> round_half_even x = \<lfloor>x\<rfloor> + 1 \<or>
     x - F = 1 / 2 \<and> even (round_half_even x) \<and>
       (round_half_even x = \<lfloor>x\<rfloor> \<or> round_half_even x = \<lfloor>x\<rfloor> + 1)"
    unfolding F_def round_half_even_def Let_def by auto
  ultimately show ?thesis by blast
qed

lemma int_gap:
  fixes k f :: int
  shows "(of_int k :: rat) \<le> of_int f - 1 \<or> k = f \<or> k = f + 1 \<or> (of_int f :: rat) + 2 \<le> of_int k"
proof -
  have "k \<le> f - 1 \<or> k = f \<or> k = f + 1 \<or> f + 2 \<le> k"
    by linarith
  then show ?thesis
    by (metis of_int_1 of_int_add of_int_diff of_int_le_iff of_int_numeral)
qed

lemma round_half_even_nearest:
  "\<bar>of_int (round_half_even x) - x\<bar> \<le> \<bar>of_int k - x\<bar>"
proof -
  define F :: rat where "F = of_int \<lfloor>x\<rfloor>"
  define K :: rat where "K = of_int k"
  define M :: rat where "M = of_int (round_half_even x)"
  have c: "F \<le> x \<and> x < F + 1 \<and>
    (x - F < 1 / 2 \<and> M = F \<or> 1 / 2 < x - F \<and> M = F + 1 \<or>
     x - F = 1 / 2 \<and> (M = F \<or> M = F + 1))"
    using round_half_even_cases [of x] unfolding F_def M_def by auto
  have k: "K \<le> F - 1 \<or> K = F \<or> K = F + 1 \<or> F + 2 \<le> K"
    using int_gap [of k "\<lfloor>x\<rfloor>"] unfolding F_def K_def by auto
  have "\<bar>M - x\<bar> \<le> \<bar>K - x\<bar>"
    using c k by (auto simp: abs_if)
  then show ?thesis
    by (simp add: M_def K_def)
qed

lemma round_half_even_half: "\<bar>of_int (round_half_even x) - x\<bar> \<le> 1 / 2"
proof -
  define F :: rat where "F = of_int \<lfloor>x\<rfloor>"
  define M :: rat where "M = of_int (round_half_even x)"
  have c: "F \<le> x \<and> x < F + 1 \<and>
    (x - F < 1 / 2 \<and> M = F \<or> 1 / 2 < x - F \<and> M = F + 1 \<or>
     x - F = 1 / 2 \<and> (M = F \<or> M = F + 1))"
    using round_half_even_cases [of x] unfolding F_def M_def by auto
  have "\<bar>M - x\<bar> \<le> 1 / 2"
    using c by (auto simp: abs_if)
  then show ?thesis
    by (simp add: M_def)
qed

lemma round_half_even_tie:
  assumes "k \<noteq> round_half_even x" and "\<bar>of_int k - x\<bar> = \<bar>of_int (round_half_even x) - x\<bar>"
  shows "even (round_half_even x) \<and> (k = round_half_even x + 1 \<or> k = round_half_even x - 1)"
proof -
  define f where "f = \<lfloor>x\<rfloor>"
  define m where "m = round_half_even x"
  define F :: rat where "F = of_int f"
  define K :: rat where "K = of_int k"
  define M :: rat where "M = of_int m"
  have c: "F \<le> x \<and> x < F + 1 \<and>
    (x - F < 1 / 2 \<and> m = f \<or> 1 / 2 < x - F \<and> m = f + 1 \<or>
     x - F = 1 / 2 \<and> even m \<and> (m = f \<or> m = f + 1))"
    using round_half_even_cases [of x] unfolding F_def f_def m_def by auto
  have M: "m = f \<Longrightarrow> M = F" "m = f + 1 \<Longrightarrow> M = F + 1"
    by (simp_all add: M_def F_def)
  have k: "K \<le> F - 1 \<or> k = f \<or> k = f + 1 \<or> F + 2 \<le> K"
    using int_gap [of k f] unfolding F_def K_def by auto
  have K: "k = f \<Longrightarrow> K = F" "k = f + 1 \<Longrightarrow> K = F + 1"
    by (simp_all add: K_def F_def)
  have e: "\<bar>K - x\<bar> = \<bar>M - x\<bar>"
    using assms(2) by (simp add: K_def M_def m_def)
  have ne: "k \<noteq> m"
    using assms(1) by (simp add: m_def)
  have "even m \<and> (k = m + 1 \<or> k = m - 1)"
    using c k e ne M K by (auto simp: abs_if split: if_splits)
  then show ?thesis
    by (simp add: m_def)
qed


lemma powi_pos: "0 < (2::rat) powi e"
  by simp

lemma powi_add: "(2::rat) powi (a + b) = 2 powi a * 2 powi b"
  by (simp add: power_int_add)

lemma powi_mono: "a \<le> b \<Longrightarrow> (2::rat) powi a \<le> 2 powi b"
  by (rule power_int_increasing) simp_all

lemma powi_strict_mono: "a < b \<Longrightarrow> (2::rat) powi a < 2 powi b"
  by (rule power_int_strict_increasing) simp_all

lemma bitlen_powi:
  assumes "0 < n"
  shows "(2::rat) powi (bitlen n - 1) \<le> of_int n" and "of_int n < (2::rat) powi bitlen n"
    and "1 \<le> bitlen n"
proof -
  from bitlen_bounds [OF assms]
  have lo: "2 ^ nat (bitlen n - 1) \<le> n" and hi: "n < 2 ^ nat (bitlen n)"
    by simp_all
  show 1: "1 \<le> bitlen n"
  proof (rule ccontr)
    assume "\<not> 1 \<le> bitlen n"
    then have "nat (bitlen n) = 0"
      by simp
    with hi assms show False
      by simp
  qed
  have "(2::rat) powi (bitlen n - 1) = of_int (2 ^ nat (bitlen n - 1))"
    using 1 by (simp add: power_int_def)
  also have "\<dots> \<le> of_int n"
    using lo by (simp only: of_int_le_iff)
  finally show "(2::rat) powi (bitlen n - 1) \<le> of_int n" .
  have "(of_int n :: rat) < of_int (2 ^ nat (bitlen n))"
    using hi by (simp only: of_int_less_iff)
  also have "\<dots> = 2 powi bitlen n"
    using 1 by (simp add: power_int_def)
  finally show "of_int n < (2::rat) powi bitlen n" .
qed

lemma binade_bounds:
  assumes "0 < q"
  shows "2 powi binade q \<le> q \<and> q < 2 powi (binade q + 1)"
proof -
  obtain n d where nd: "quotient_of q = (n, d)"
    by (cases "quotient_of q")
  have d: "0 < d"
    using nd by (rule quotient_of_denom_pos)
  have q: "q = of_int n / of_int d"
    using nd by (rule quotient_of_div)
  have n: "0 < n"
    using assms d unfolding q by (simp add: zero_less_divide_iff)
  define N :: rat where "N = of_int n"
  define D :: rat where "D = of_int d"
  define k where "k = bitlen n - bitlen d"
  have D0: "0 < D" and N0: "0 < N"
    using d n by (simp_all add: D_def N_def)
  have qND: "q = N / D"
    by (simp add: q N_def D_def)
  have Nlo: "2 powi (bitlen n - 1) \<le> N" and Nhi: "N < 2 powi bitlen n"
    using bitlen_powi [OF n] by (simp_all add: N_def)
  have Dlo: "2 powi (bitlen d - 1) \<le> D" and Dhi: "D < 2 powi bitlen d"
    using bitlen_powi [OF d] by (simp_all add: D_def)
  have lo: "2 powi (k - 1) \<le> q"
  proof -
    have "2 powi (k - 1) * D \<le> 2 powi (k - 1) * 2 powi bitlen d"
      using Dhi by (simp add: mult_left_mono)
    also have "\<dots> = 2 powi (bitlen n - 1)"
      by (simp add: k_def flip: powi_add)
    also have "\<dots> \<le> N"
      by (rule Nlo)
    finally show ?thesis
      using D0 by (simp add: qND pos_le_divide_eq)
  qed
  have hi: "q < 2 powi (k + 1)"
  proof -
    have "N < 2 powi bitlen n"
      by (rule Nhi)
    also have "\<dots> = 2 powi (k + 1) * 2 powi (bitlen d - 1)"
      by (simp add: k_def flip: powi_add)
    also have "\<dots> \<le> 2 powi (k + 1) * D"
      using Dlo by (simp add: mult_left_mono)
    finally show ?thesis
      using D0 by (simp add: qND pos_divide_less_eq)
  qed
  have b: "binade q = (if 2 powi k \<le> q then k else k - 1)"
    by (simp add: binade_def nd k_def)
  show ?thesis
  proof (cases "2 powi k \<le> q")
    case True
    with hi b show ?thesis by simp
  next
    case False
    with lo b show ?thesis by simp
  qed
qed

lemma overflow_iff:
  assumes "0 < m"
  shows "(2::rat) powi E \<le> of_int m * 2 powi e \<longleftrightarrow> E < bitlen m + e"
proof
  assume a: "(2::rat) powi E \<le> of_int m * 2 powi e"
  show "E < bitlen m + e"
  proof (rule ccontr)
    assume "\<not> E < bitlen m + e"
    then have "(2::rat) powi (bitlen m + e) \<le> 2 powi E"
      by (intro powi_mono) simp
    moreover have "of_int m * 2 powi e < (2::rat) powi bitlen m * 2 powi e"
      using bitlen_powi(2) [OF assms] by (simp add: mult_strict_right_mono)
    ultimately show False
      using a by (simp add: powi_add)
  qed
next
  assume "E < bitlen m + e"
  then have "(2::rat) powi E \<le> 2 powi (bitlen m - 1 + e)"
    by (intro powi_mono) simp
  also have "\<dots> = 2 powi (bitlen m - 1) * 2 powi e"
    by (rule powi_add)
  also have "\<dots> \<le> of_int m * 2 powi e"
    using bitlen_powi(1) [OF assms] by (simp add: mult_right_mono)
  finally show "(2::rat) powi E \<le> of_int m * 2 powi e" .
qed

lemma float_grid:
  assumes "spec_float d" and "- 1074 \<le> e"
  shows "(\<exists>k. d = of_int k * 2 powi e) \<or> (- 1074 < e \<and> \<bar>d\<bar> < 2 powi (e + 52))"
proof -
  from assms(1) obtain m' e' where d: "d = of_int m' * 2 powi e'" and m': "\<bar>m'\<bar> < 2 ^ 53"
    and e': "- 1074 \<le> e'"
    unfolding spec_float_def by blast
  show ?thesis
  proof (cases "e \<le> e'")
    case True
    have "(2::rat) powi e' = 2 powi (e' - e) * 2 powi e"
      by (simp flip: powi_add)
    also have "(2::rat) powi (e' - e) = of_int (2 ^ nat (e' - e))"
      using True by (simp add: power_int_def)
    finally have "d = of_int (m' * 2 ^ nat (e' - e)) * 2 powi e"
      unfolding d by simp
    then show ?thesis by blast
  next
    case False
    then have lt: "- 1074 < e"
      using e' by simp
    have "\<bar>d\<bar> = \<bar>of_int m' :: rat\<bar> * 2 powi e'"
      unfolding d by (simp add: abs_mult)
    also have "\<bar>of_int m' :: rat\<bar> = of_int \<bar>m'\<bar>"
      by simp
    also have "(of_int \<bar>m'\<bar> :: rat) < of_int (2 ^ 53)"
      using m' by (simp only: of_int_less_iff)
    then have "of_int \<bar>m'\<bar> * 2 powi e' < (of_int (2 ^ 53) :: rat) * 2 powi e'"
      by (simp add: mult_strict_right_mono)
    also have "(of_int (2 ^ 53) :: rat) * 2 powi e' = 2 powi (53 + e')"
      by (simp add: powi_add)
    also have "\<dots> \<le> 2 powi (e + 52)"
      using False by (intro powi_mono) simp
    finally show ?thesis
      using lt by simp
  qed
qed


lemma spec_float_0: "spec_float 0"
  unfolding spec_float_def by (rule exI [of _ 0], rule exI [of _ 0]) simp

lemma to_double_spec:
  assumes "0 \<le> q"
  shows "spec_number_value q (to_double q)"
proof (cases "q = 0")
  case True
  have "spec_float 0 \<and>
      (\<forall>d. spec_float d \<longrightarrow> \<bar>0 - q\<bar> \<le> \<bar>d - q\<bar>) \<and>
      (\<forall>d. spec_float d \<and> d \<noteq> 0 \<and> \<bar>d - q\<bar> = \<bar>0 - q\<bar> \<longrightarrow> (\<exists>k. 0 = of_int (2 * k) * (d - 0))) \<and>
      to_double q = (if 2 powi 1024 \<le> (0::rat) then PosInfinity
               else if (0::rat) \<le> - (2 powi 1024) then NegInfinity else Finite 0)"
    using True spec_float_0 by (simp add: to_double_def)
  then show ?thesis
    unfolding spec_number_value_def by (rule exI [of _ 0])
next
  case False
  with assms have q0: "0 < q"
    by simp
  define b where "b = binade q"
  define e where "e = max (b - 52) (- 1074)"
  define P where "P = (2::rat) powi e"
  define x where "x = q / P"
  define m where "m = round_half_even x"
  define M :: rat where "M = of_int m"
  define u where "u = M * P"
  have P0: "0 < P"
    by (simp add: P_def)
  have bb: "2 powi b \<le> q" "q < 2 powi (b + 1)"
    using binade_bounds [OF q0] by (simp_all add: b_def)
  have e1: "- 1074 \<le> e" and e2: "b - 52 \<le> e"
    by (simp_all add: e_def)
  have qx: "q = x * P"
    using P0 by (simp add: x_def)
  have x0: "0 < x"
    using q0 P0 by (simp add: x_def)
  have xlt: "x < 2 powi 53"
  proof -
    have "q < 2 powi (b + 1)"
      by (rule bb)
    also have "\<dots> \<le> 2 powi (53 + e)"
      using e2 by (intro powi_mono) simp
    also have "\<dots> = 2 powi 53 * P"
      by (simp only: powi_add P_def)
    finally show ?thesis
      using P0 by (simp add: x_def pos_divide_less_eq)
  qed
  have half: "\<bar>M - x\<bar> \<le> 1 / 2"
    unfolding M_def m_def by (rule round_half_even_half)
  have m0: "0 \<le> m"
  proof -
    have "(of_int (- 1) :: rat) < of_int m"
      using half x0 unfolding M_def by (simp add: abs_if split: if_splits)
    then have "- 1 < m"
      by (simp only: of_int_less_iff)
    then show ?thesis by simp
  qed
  have mle: "m \<le> 2 ^ 53"
  proof -
    have "(of_int m :: rat) < of_int (2 ^ 53 + 1)"
      using half xlt unfolding M_def by (simp add: abs_if split: if_splits)
    then have "m < 2 ^ 53 + 1"
      by (simp only: of_int_less_iff)
    then show ?thesis by simp
  qed
  have normal: "e = b - 52 \<and> 2 powi (e + 52) \<le> q \<and> 0 < m" if "- 1074 < e"
  proof -
    have eb: "e = b - 52"
      using that by (simp add: e_def max_def split: if_splits)
    then have L: "2 powi (e + 52) \<le> q"
      using bb(1) by simp
    have "2 powi 52 * P = 2 powi (e + 52)"
      by (simp add: P_def powi_add)
    with L have "2 powi 52 \<le> x"
      using P0 by (simp add: x_def pos_le_divide_eq)
    then have "(of_int 0 :: rat) < of_int m"
      using half unfolding M_def by (simp add: abs_if split: if_splits)
    then have "0 < m"
      by (simp only: of_int_less_iff)
    with eb L show ?thesis by simp
  qed
  have u_float: "spec_float u"
  proof (cases "m = 2 ^ 53")
    case True
    have "u = of_int (2 ^ 52) * 2 powi (e + 1)"
      by (simp add: u_def M_def True P_def powi_add)
    moreover have "\<bar>2 ^ 52 :: int\<bar> < 2 ^ 53" "- 1074 \<le> e + 1"
      using e1 by simp_all
    ultimately show ?thesis
      unfolding spec_float_def by blast
  next
    case False
    with mle m0 have "\<bar>m\<bar> < 2 ^ 53"
      by simp
    moreover have "u = of_int m * 2 powi e"
      by (simp add: u_def M_def P_def)
    ultimately show ?thesis
      unfolding spec_float_def using e1 by blast
  qed
  have du: "u - q = (M - x) * P"
    by (simp add: u_def qx algebra_simps)
  have dk: "of_int k * P - q = (of_int k - x) * P" for k
    by (simp add: qx algebra_simps)
  have near_mult: "\<bar>u - q\<bar> \<le> \<bar>of_int k * P - q\<bar>" for k
  proof -
    have "\<bar>M - x\<bar> \<le> \<bar>of_int k - x\<bar>"
      unfolding M_def m_def by (rule round_half_even_nearest)
    then show ?thesis
      unfolding du dk abs_mult using P0 by (simp add: mult_right_mono)
  qed
  have far: "\<bar>u - q\<bar> < \<bar>d - q\<bar>" if d: "\<bar>d\<bar> < 2 powi (e + 52)" and en: "- 1074 < e" for d
  proof -
    have L: "2 powi (e + 52) \<le> q"
      using normal [OF en] by blast
    have "of_int (2 ^ 52) * P = 2 powi (e + 52)"
      by (simp add: P_def powi_add)
    then have "\<bar>u - q\<bar> \<le> \<bar>2 powi (e + 52) - q\<bar>"
      using near_mult [of "2 ^ 52"] by simp
    also have "\<dots> < \<bar>d - q\<bar>"
      using L d by (simp add: abs_if split: if_splits)
    finally show ?thesis .
  qed
  have near: "\<bar>u - q\<bar> \<le> \<bar>d - q\<bar>" if "spec_float d" for d
    using float_grid [OF that e1] near_mult far by (fastforce simp: P_def)
  have tie: "\<exists>k. u = of_int (2 * k) * (d - u)"
    if d: "spec_float d" and ne: "d \<noteq> u" and eq: "\<bar>d - q\<bar> = \<bar>u - q\<bar>" for d
  proof -
    from float_grid [OF d e1] far eq obtain k where k: "d = of_int k * P"
      by (fastforce simp: P_def)
    have kne: "k \<noteq> m"
      using ne k by (auto simp: u_def M_def)
    have "\<bar>of_int k - x\<bar> * P = \<bar>M - x\<bar> * P"
      using eq P0 unfolding k du dk abs_mult by simp
    then have "\<bar>of_int k - x\<bar> = \<bar>of_int (round_half_even x) - x\<bar>"
      using P0 by (simp add: M_def m_def)
    from round_half_even_tie [OF kne [unfolded m_def] this]
    have ev: "even m" and km: "k = m + 1 \<or> k = m - 1"
      by (simp_all add: m_def)
    from ev obtain j where j: "m = 2 * j"
      by (auto elim: evenE)
    from km show ?thesis
    proof
      assume a: "k = m + 1"
      have "d - u = P"
        unfolding k a u_def M_def by (simp add: algebra_simps)
      then have "u = of_int (2 * j) * (d - u)"
        by (simp add: u_def M_def j)
      then show ?thesis by blast
    next
      assume a: "k = m - 1"
      have "d - u = - P"
        unfolding k a u_def M_def by (simp add: algebra_simps)
      then have "u = of_int (2 * (- j)) * (d - u)"
        by (simp add: u_def M_def j)
      then show ?thesis by blast
    qed
  qed
  have u0: "0 \<le> u"
    using m0 P0 by (simp add: u_def M_def)
  have val: "to_double q = (if 2 powi 1024 \<le> u then PosInfinity
               else if u \<le> - (2 powi 1024) then NegInfinity else Finite u)"
  proof -
    have td: "to_double q = (if 1024 < bitlen m + e then PosInfinity else Finite u)"
      using False
      by (simp add: to_double_def Let_def u_def M_def m_def x_def P_def e_def b_def)
    have neg: "\<not> u \<le> - (2 powi 1024)"
    proof -
      have "- ((2::rat) powi 1024) < 0"
        by (simp only: neg_less_0_iff_less powi_pos)
      with u0 show ?thesis by linarith
    qed
    have ov: "(2 powi 1024 \<le> u) \<longleftrightarrow> 1024 < bitlen m + e"
    proof (cases "m = 0")
      case True
      have "e = - 1074"
        using normal e1 True by fastforce
      moreover have "\<not> (2::rat) powi 1024 \<le> 0"
        using powi_pos [of 1024] by linarith
      ultimately show ?thesis
        by (simp add: u_def M_def True)
    next
      case False
      with m0 have "0 < m"
        by simp
      from overflow_iff [OF this, of 1024 e] show ?thesis
        by (simp only: u_def M_def P_def)
    qed
    show ?thesis
      unfolding td using neg ov by (simp only: if_False)
  qed
  have "spec_float u \<and>
      (\<forall>d. spec_float d \<longrightarrow> \<bar>u - q\<bar> \<le> \<bar>d - q\<bar>) \<and>
      (\<forall>d. spec_float d \<and> d \<noteq> u \<and> \<bar>d - q\<bar> = \<bar>u - q\<bar> \<longrightarrow> (\<exists>k. u = of_int (2 * k) * (d - u))) \<and>
      to_double q = (if 2 powi 1024 \<le> u then PosInfinity
               else if u \<le> - (2 powi 1024) then NegInfinity else Finite u)"
    using u_float near tie val by blast
  then show ?thesis
    unfolding spec_number_value_def by (rule exI [of _ u])
qed

lemma spec_number_value_unique:
  assumes "spec_number_value x v" and "spec_number_value x v'"
  shows "v = v'"
proof -
  from assms(1) obtain u where u: "spec_float u"
    and un: "\<forall>d. spec_float d \<longrightarrow> \<bar>u - x\<bar> \<le> \<bar>d - x\<bar>"
    and ut: "\<forall>d. spec_float d \<and> d \<noteq> u \<and> \<bar>d - x\<bar> = \<bar>u - x\<bar> \<longrightarrow> (\<exists>k. u = of_int (2 * k) * (d - u))"
    and v: "v = (if 2 powi 1024 \<le> u then PosInfinity
               else if u \<le> - (2 powi 1024) then NegInfinity else Finite u)"
    unfolding spec_number_value_def by blast
  from assms(2) obtain u' where u': "spec_float u'"
    and un': "\<forall>d. spec_float d \<longrightarrow> \<bar>u' - x\<bar> \<le> \<bar>d - x\<bar>"
    and ut': "\<forall>d. spec_float d \<and> d \<noteq> u' \<and> \<bar>d - x\<bar> = \<bar>u' - x\<bar> \<longrightarrow> (\<exists>k. u' = of_int (2 * k) * (d - u'))"
    and v': "v' = (if 2 powi 1024 \<le> u' then PosInfinity
               else if u' \<le> - (2 powi 1024) then NegInfinity else Finite u')"
    unfolding spec_number_value_def by blast
  have eq: "\<bar>u - x\<bar> = \<bar>u' - x\<bar>"
    using un u' un' u by (simp add: order_antisym)
  have "u = u'"
  proof (rule ccontr)
    assume ne: "u \<noteq> u'"
    from ut u' ne eq obtain k where k: "u = of_int (2 * k) * (u' - u)"
      by metis
    from ut' u ne eq obtain k' where k': "u' = of_int (2 * k') * (u - u')"
      by metis
    define s where "s = u' - u"
    have s: "s \<noteq> 0"
      using ne by (simp add: s_def)
    have "s = of_int (2 * k') * (- s) - of_int (2 * k) * s"
      using k k' by (simp add: s_def algebra_simps)
    then have "s * 1 = s * of_int (- 2 * k' - 2 * k)"
      by (simp add: algebra_simps)
    then have "(1::rat) = of_int (- 2 * k' - 2 * k)"
      using s by (simp only: mult_cancel_left) simp
    then have "(of_int 1 :: rat) = of_int (- 2 * k' - 2 * k)"
      by simp
    then have "(1::int) = - 2 * k' - 2 * k"
      by (simp only: of_int_eq_iff)
    then show False
      by presburger
  qed
  then show ?thesis
    using v v' by simp
qed

lemma spec_number_value_exact:
  assumes "spec_number_value x v" and "spec_float x" and "0 \<le> x" and "x < 2 powi 1024"
  shows "v = Finite x"
proof -
  from assms(1) obtain u where u: "spec_float u"
    and un: "\<forall>d. spec_float d \<longrightarrow> \<bar>u - x\<bar> \<le> \<bar>d - x\<bar>"
    and v: "v = (if 2 powi 1024 \<le> u then PosInfinity
               else if u \<le> - (2 powi 1024) then NegInfinity else Finite u)"
    unfolding spec_number_value_def by blast
  from un assms(2) have "\<bar>u - x\<bar> \<le> \<bar>x - x\<bar>"
    by blast
  then have "u = x"
    by simp
  moreover have "- ((2::rat) powi 1024) < 0"
    by (simp only: neg_less_0_iff_less powi_pos)
  ultimately show ?thesis
    using v assms(3,4) by (simp only: if_False) auto
qed

text \<open>
  The digits: \<open>digits_value\<close> reads a numeral from the left, the specification counts its
  digits by their place.
\<close>

lemma foldl_digits:
  "foldl (\<lambda>n c. 10 * n + (unat c - 48)) a cs =
     a * 10 ^ length cs + foldl (\<lambda>n c. 10 * n + (unat (c::jschar) - 48)) (0::nat) cs"
proof (induction cs arbitrary: a)
  case Nil
  show ?case by simp
next
  case (Cons c cs)
  show ?case
    using Cons.IH [of "10 * a + (unat c - 48)"] Cons.IH [of "unat c - 48"]
    by (simp add: algebra_simps)
qed

lemma digits_value_Cons:
  "digits_value (c # cs) = (unat c - 48) * 10 ^ length cs + digits_value cs"
  using foldl_digits [of "unat c - 48" cs] by (simp add: digits_value_def)

lemma digits_value_units: "of_nat (digits_value ds) = spec_units (rev ds)"
proof (induction ds rule: rev_induct)
  case Nil
  show ?case by (simp add: digits_value_def)
next
  case (snoc c ds)
  have "digits_value (ds @ [c]) = 10 * digits_value ds + (unat c - 48)"
    by (simp add: digits_value_def)
  then show ?case
    using snoc.IH by simp
qed

lemma digits_value_tenths: "of_nat (digits_value fs) / 10 ^ length fs = spec_tenths fs"
proof (induction fs)
  case Nil
  show ?case by (simp add: digits_value_def)
next
  case (Cons c cs)
  have "(of_nat (digits_value (c # cs)) :: rat) / 10 ^ length (c # cs) =
      (of_nat (unat c - 48) + of_nat (digits_value cs) / 10 ^ length cs) / 10"
    by (simp add: digits_value_Cons field_simps)
  then show ?case
    using Cons.IH by simp
qed

text \<open>\<open>parseFloat\<close> gives the number that the numeral denotes, and no other Number is that.\<close>

lemma parseFloat_denotes: "spec_denotes m (parseFloat m)"
proof -
  define ip where "ip = takeWhile (\<lambda>c. c \<noteq> dot) m"
  define fp where "fp = drop 1 (dropWhile (\<lambda>c. c \<noteq> dot) m)"
  define q :: rat where "q = of_nat (digits_value ip) + of_nat (digits_value fp) / 10 ^ length fp"
  have "0 \<le> q"
    by (simp add: q_def)
  then have "spec_number_value q (to_double q)"
    by (rule to_double_spec)
  moreover have "q = spec_decimal m"
  proof -
    have t: "of_nat (digits_value fp) / 10 ^ length fp = spec_tenths fp"
      by (rule digits_value_tenths)
    have u: "of_nat (digits_value ip) = spec_units (rev ip)"
      by (rule digits_value_units)
    have "q = spec_units (rev ip) + spec_tenths fp"
      unfolding q_def t u by (rule refl)
    then show ?thesis
      by (simp only: spec_decimal_def ip_def fp_def)
  qed
  moreover have "parseFloat m = to_double q"
    by (simp add: parseFloat_def Let_def q_def ip_def fp_def)
  ultimately show ?thesis
    by (simp add: spec_denotes_def)
qed

lemma spec_denotes_unique: "spec_denotes num v \<Longrightarrow> spec_denotes num v' \<Longrightarrow> v = v'"
  unfolding spec_denotes_def by (rule spec_number_value_unique)

lemma spec_denotes_float:
  assumes "spec_denotes num v" and "spec_decimal num = x"
    and "spec_float x" and "0 \<le> x" and "x < 2 powi 1024"
  shows "v = Finite x"
  using assms unfolding spec_denotes_def by (simp only: spec_number_value_exact)

lemma spec_denotes_exact:
  assumes "spec_denotes num v" and "spec_decimal num = of_int n" and "0 \<le> n" and "n < 2 ^ 53"
  shows "v = Finite (of_int n)"
proof -
  have f: "spec_float (of_int n)"
    unfolding spec_float_def using assms(3,4)
    by (intro exI [of _ n] exI [of _ 0]) simp
  have "(of_int n :: rat) < of_int (2 ^ 53)"
    using assms(4) by (simp only: of_int_less_iff)
  also have "\<dots> = 2 powi 53"
    by simp
  also have "\<dots> \<le> 2 powi 1024"
    by (rule powi_mono) simp
  finally have lt: "(of_int n :: rat) < 2 powi 1024" .
  have "(0::rat) \<le> of_int n"
    using assms(3) by simp
  with assms(1,2) f lt show ?thesis
    unfolding spec_denotes_def by (simp only: spec_number_value_exact)
qed

section \<open>The number and range patterns\<close>

text \<open>The character classes of the patterns do not overlap.\<close>

lemma dot_not_digit: "\<not> is_digit dot"
  by (simp add: is_digit_def dot_def)

lemma space_not_digit: "is_space c \<Longrightarrow> \<not> is_digit c"
  unfolding is_space_def is_digit_def
  by (auto dest: order_trans [of "0x2000" c "0x39"])

lemma space_not_dot: "is_space c \<Longrightarrow> c \<noteq> dot"
  unfolding is_space_def dot_def by auto

lemma dash_not_digit: "is_dash c \<Longrightarrow> \<not> is_digit c"
  unfolding is_dash_def is_digit_def by auto

lemma dash_not_dot: "is_dash c \<Longrightarrow> c \<noteq> dot"
  unfolding is_dash_def dot_def by auto

lemma dash_not_space: "is_dash c \<Longrightarrow> \<not> is_space c"
  unfolding is_dash_def is_space_def by auto

lemma takeWhile_nil_iff: "takeWhile P xs = [] \<longleftrightarrow> (case xs of [] \<Rightarrow> True | x # _ \<Rightarrow> \<not> P x)"
  by (cases xs) auto

lemma digits_prefix:
  assumes "list_all is_digit ds" and "case r of [] \<Rightarrow> True | c # _ \<Rightarrow> \<not> is_digit c"
  shows "takeWhile is_digit (ds @ r) = ds" and "dropWhile is_digit (ds @ r) = r"
proof -
  have all: "\<And>x. x \<in> set ds \<Longrightarrow> is_digit x"
    using assms(1) by (simp add: list_all_iff)
  have t: "takeWhile is_digit r = []"
    using assms(2) by (simp add: takeWhile_nil_iff)
  show "takeWhile is_digit (ds @ r) = ds"
    using all t by simp
  have "dropWhile is_digit r = r"
    using assms(2) by (cases r) auto
  then show "dropWhile is_digit (ds @ r) = r"
    using all by simp
qed

lemma spec_number_int: "is_digits ds \<Longrightarrow> spec_number ds"
proof -
  assume d: "is_digits ds"
  then have "\<And>x. x \<in> set ds \<Longrightarrow> x \<noteq> dot"
    using dot_not_digit by (auto simp: is_digits_def list_all_iff)
  then have t: "takeWhile (\<lambda>c. c \<noteq> dot) ds = ds" "dropWhile (\<lambda>c. c \<noteq> dot) ds = []"
    by auto
  show ?thesis
    unfolding spec_number_def t using d by simp
qed

lemma spec_number_frac: "is_digits ds \<Longrightarrow> is_digits fs \<Longrightarrow> spec_number (ds @ dot # fs)"
proof -
  assume d: "is_digits ds" and f: "is_digits fs"
  from d have "\<And>x. x \<in> set ds \<Longrightarrow> x \<noteq> dot"
    using dot_not_digit by (auto simp: is_digits_def list_all_iff)
  then have t: "takeWhile (\<lambda>c. c \<noteq> dot) (ds @ dot # fs) = ds"
    "dropWhile (\<lambda>c. c \<noteq> dot) (ds @ dot # fs) = dot # fs"
    by simp_all
  show ?thesis
    unfolding spec_number_def t using d f by simp
qed

lemma spec_number_cases:
  assumes "spec_number s"
  shows "(dot \<notin> set s \<and> is_digits s) \<or>
         (\<exists>ds fs. s = ds @ dot # fs \<and> is_digits ds \<and> is_digits fs)"
proof (cases "dropWhile (\<lambda>c. c \<noteq> dot) s")
  case Nil
  then have t: "takeWhile (\<lambda>c. c \<noteq> dot) s = s"
    by (metis append_Nil2 takeWhile_dropWhile_id)
  from Nil have "dot \<notin> set s"
    by (metis (mono_tags, lifting) dropWhile_eq_Nil_conv)
  moreover have "is_digits s"
    using assms unfolding spec_number_def t by simp
  ultimately show ?thesis by simp
next
  case (Cons d fs)
  then have "d = dot"
    using hd_dropWhile [of "\<lambda>c. c \<noteq> dot" s] by auto
  then have "s = takeWhile (\<lambda>c. c \<noteq> dot) s @ dot # fs"
    using Cons by (metis takeWhile_dropWhile_id)
  then show ?thesis
    using assms Cons by (auto simp: spec_number_def)
qed

lemma spec_number_hd: "spec_number s \<Longrightarrow> \<exists>c cs. s = c # cs \<and> is_digit c"
  by (cases s) (auto simp: spec_number_def is_digits_def split: if_splits)

text \<open>
  The number pattern at the start of an input matches exactly a whole numeric substring
  that begins there.
\<close>

lemma match_number_eq:
  "match_number cs =
     (if takeWhile is_digit cs = [] then None
      else case dropWhile is_digit cs of
             [] \<Rightarrow> Some (takeWhile is_digit cs, [])
           | d # r' \<Rightarrow>
               if d = dot \<and> takeWhile is_digit r' \<noteq> []
               then Some (takeWhile is_digit cs @ d # takeWhile is_digit r', dropWhile is_digit r')
               else Some (takeWhile is_digit cs, dropWhile is_digit cs))"
  by (simp add: match_number_def Let_def)

lemma match_number_complete:
  assumes "spec_number num" and "spec_number_ends num rest"
  shows "match_number (num @ rest) = Some (num, rest)"
  using spec_number_cases [OF assms(1)]
proof (elim disjE conjE exE)
  assume nd: "dot \<notin> set num" and d: "is_digits num"
  have e: "case rest of [] \<Rightarrow> True | c # _ \<Rightarrow> \<not> is_digit c"
    using assms(2) by (auto simp: spec_number_ends_def split: list.splits)
  have t: "takeWhile is_digit (num @ rest) = num" and dr: "dropWhile is_digit (num @ rest) = rest"
    using digits_prefix [OF _ e, of num] d by (simp_all add: is_digits_def)
  show ?thesis
  proof (cases rest)
    case Nil
    show ?thesis
      unfolding match_number_eq t dr using d Nil by (simp add: is_digits_def)
  next
    case (Cons c rest')
    have "c = dot \<Longrightarrow> takeWhile is_digit rest' = []"
      using assms(2) nd Cons by (auto simp: spec_number_ends_def takeWhile_nil_iff split: list.splits)
    then show ?thesis
      unfolding match_number_eq t dr using d Cons by (auto simp: is_digits_def)
  qed
next
  fix ds fs
  assume s: "num = ds @ dot # fs" and d: "is_digits ds" and f: "is_digits fs"
  have e: "case rest of [] \<Rightarrow> True | c # _ \<Rightarrow> \<not> is_digit c"
    using assms(2) by (auto simp: spec_number_ends_def split: list.splits)
  have e': "case dot # fs @ rest of [] \<Rightarrow> True | c # _ \<Rightarrow> \<not> is_digit c"
    by (simp add: dot_not_digit)
  have t: "takeWhile is_digit (num @ rest) = ds"
    and dr: "dropWhile is_digit (num @ rest) = dot # fs @ rest"
    using digits_prefix [OF _ e', of ds] d by (simp_all add: is_digits_def s)
  have t2: "takeWhile is_digit (fs @ rest) = fs" and d2: "dropWhile is_digit (fs @ rest) = rest"
    using digits_prefix [OF _ e, of fs] f by (simp_all add: is_digits_def)
  show ?thesis
    unfolding match_number_eq t dr using d f by (simp add: is_digits_def s t2 d2)
qed

lemma list_all_takeWhile: "list_all P (takeWhile P xs)"
  by (induction xs) auto

lemma dropWhile_head: "case dropWhile P xs of [] \<Rightarrow> True | c # _ \<Rightarrow> \<not> P c"
  by (induction xs) auto

lemma match_number_sound:
  assumes "match_number cs = Some (m, r)"
  shows "cs = m @ r \<and> spec_number m \<and> spec_number_ends m r"
proof -
  define ds where "ds = takeWhile is_digit cs"
  define r0 where "r0 = dropWhile is_digit cs"
  have cs: "cs = ds @ r0"
    by (simp add: ds_def r0_def)
  have eq: "(if ds = [] then None
      else case r0 of
             [] \<Rightarrow> Some (ds, [])
           | d # r' \<Rightarrow>
               if d = dot \<and> takeWhile is_digit r' \<noteq> []
               then Some (ds @ d # takeWhile is_digit r', dropWhile is_digit r')
               else Some (ds, r0)) = Some (m, r)"
    using assms unfolding match_number_eq ds_def r0_def .
  have ne: "ds \<noteq> []"
    using eq by (auto split: if_splits)
  have dg: "is_digits ds"
    using ne by (simp add: is_digits_def ds_def list_all_takeWhile)
  have nd: "dot \<notin> set ds"
    using dg dot_not_digit by (auto simp: is_digits_def list_all_iff)
  have h0: "case r0 of [] \<Rightarrow> True | c # _ \<Rightarrow> \<not> is_digit c"
    unfolding r0_def by (rule dropWhile_head)
  show ?thesis
  proof (cases r0)
    case Nil
    then have "m = ds" "r = []"
      using eq ne by auto
    then show ?thesis
      using cs Nil dg by (simp add: spec_number_int spec_number_ends_def)
  next
    case (Cons d r')
    show ?thesis
    proof (cases "d = dot \<and> takeWhile is_digit r' \<noteq> []")
      case True
      define fs where "fs = takeWhile is_digit r'"
      have m: "m = ds @ dot # fs" and r: "r = dropWhile is_digit r'"
        using eq ne Cons True by (auto simp: fs_def)
      have f: "is_digits fs"
        using True by (simp add: is_digits_def fs_def list_all_takeWhile)
      have "r' = fs @ r"
        by (simp add: fs_def r)
      then have "cs = m @ r"
        using cs Cons True m by simp
      moreover have "spec_number m"
        unfolding m using dg f by (rule spec_number_frac)
      moreover have "spec_number_ends m r"
      proof -
        have h: "case r of [] \<Rightarrow> True | c # _ \<Rightarrow> \<not> is_digit c"
          unfolding r by (rule dropWhile_head)
        have "dot \<in> set m"
          by (simp add: m)
        then show ?thesis
          using h by (auto simp: spec_number_ends_def split: list.splits)
      qed
      ultimately show ?thesis by simp
    next
      case False
      have m: "m = ds" and r: "r = d # r'"
        using eq ne Cons False by auto
      have "spec_number_ends m r"
        using h0 Cons False
        by (auto simp: spec_number_ends_def r m takeWhile_nil_iff split: list.splits)
      then show ?thesis
        using cs Cons m r dg by (simp add: spec_number_int)
    qed
  qed
qed

lemma match_number_None: "match_number cs = None \<longleftrightarrow> (case cs of [] \<Rightarrow> True | c # _ \<Rightarrow> \<not> is_digit c)"
  by (cases cs) (auto simp: match_number_def Let_def split: list.splits)


lemma match_number_nondigit: "\<not> is_digit c \<Longrightarrow> match_number (c # cs) = None"
  by (simp add: match_number_None)

text \<open>The first match of \<open>matchAll\<close> is the first numeric substring of the line.\<close>

lemma matchAll_numbers_skip:
  "\<forall>c\<in>set pre. \<not> is_digit c \<Longrightarrow> matchAll_numbers (pre @ cs) = matchAll_numbers cs"
  by (induction pre) (simp_all add: match_number_nondigit)

lemma matchAll_numbers_first:
  "case matchAll_numbers l of
     [] \<Rightarrow> \<forall>c\<in>set l. \<not> is_digit c
   | m # ms \<Rightarrow> \<exists>pre rest. l = pre @ m @ rest \<and> (\<forall>c\<in>set pre. \<not> is_digit c) \<and>
                 spec_number m \<and> spec_number_ends m rest"
proof (induction l)
  case Nil
  show ?case by simp
next
  case (Cons c cs)
  show ?case
  proof (cases "match_number (c # cs)")
    case None
    then have c: "\<not> is_digit c"
      by (simp add: match_number_None)
    have eq: "matchAll_numbers (c # cs) = matchAll_numbers cs"
      using None by simp
    show ?thesis
    proof (cases "matchAll_numbers cs")
      case Nil
      with Cons.IH c eq show ?thesis by simp
    next
      case (Cons m ms)
      with Cons.IH obtain pre rest where
        "cs = pre @ m @ rest" "\<forall>c\<in>set pre. \<not> is_digit c" "spec_number m" "spec_number_ends m rest"
        by auto
      then have "c # cs = (c # pre) @ m @ rest \<and> (\<forall>x\<in>set (c # pre). \<not> is_digit x) \<and>
                 spec_number m \<and> spec_number_ends m rest"
        using c by simp
      then show ?thesis
        unfolding eq Cons by (simp only: list.case) blast
    qed
  next
    case (Some mr)
    obtain m rest where mr: "mr = (m, rest)"
      by (cases mr)
    have eq: "matchAll_numbers (c # cs) = m # matchAll_numbers rest"
      using Some mr by simp
    have "c # cs = [] @ m @ rest \<and> (\<forall>x\<in>set []. \<not> is_digit x) \<and>
          spec_number m \<and> spec_number_ends m rest"
      using match_number_sound [of "c # cs" m rest] Some mr by simp
    then show ?thesis
      unfolding eq by (simp only: list.case) blast
  qed
qed


text \<open>
  The range pattern at the start of an input: every match is an occurrence of the pattern
  of the specification, and every occurrence is matched.
\<close>

lemma dropWhile_spaces:
  assumes "list_all is_space ws" and "\<not> is_space c"
  shows "dropWhile is_space (ws @ c # cs) = c # cs"
proof -
  have "\<And>x. x \<in> set ws \<Longrightarrow> is_space x"
    using assms(1) by (simp add: list_all_iff)
  then show ?thesis
    using assms(2) by simp
qed

lemma range_here_Nil: "range_here [] = None"
  by (simp add: range_here_def match_number_def)

lemma range_here_sound:
  assumes "range_here cs = Some (a, b)"
  shows "\<exists>ws1 d ws2 rest. cs = a @ ws1 @ d # ws2 @ b @ rest \<and> spec_range a ws1 d ws2 b \<and>
           spec_number_ends b rest"
proof -
  from assms obtain r1 d r2 r3 where m1: "match_number cs = Some (a, r1)"
    and d: "dropWhile is_space r1 = d # r2" and dash: "is_dash d"
    and m2: "match_number (dropWhile is_space r2) = Some (b, r3)"
    by (auto simp: range_here_def split: option.splits list.splits if_splits)
  define ws1 where "ws1 = takeWhile is_space r1"
  define ws2 where "ws2 = takeWhile is_space r2"
  have r1: "r1 = ws1 @ d # r2"
    using d by (metis takeWhile_dropWhile_id ws1_def)
  have r2: "r2 = ws2 @ dropWhile is_space r2"
    by (simp add: ws2_def)
  from match_number_sound [OF m1] have 1: "cs = a @ r1" "spec_number a"
    by simp_all
  from match_number_sound [OF m2]
  have 2: "dropWhile is_space r2 = b @ r3" "spec_number b" "spec_number_ends b r3"
    by simp_all
  have "cs = a @ ws1 @ d # ws2 @ b @ r3"
    using 1(1) r1 r2 2(1) by simp
  moreover have "spec_range a ws1 d ws2 b"
    using 1(2) 2(2) dash by (simp add: spec_range_def ws1_def ws2_def list_all_takeWhile)
  ultimately show ?thesis
    using 2(3) by blast
qed

lemma range_here_complete:
  assumes "spec_range a ws1 d ws2 b"
  shows "\<exists>b'. range_here (a @ ws1 @ d # ws2 @ b @ rest) = Some (a, b')"
proof -
  from assms have a: "spec_number a" and w1: "list_all is_space ws1" and dash: "is_dash d"
    and w2: "list_all is_space ws2" and b: "spec_number b"
    by (simp_all add: spec_range_def)
  have "spec_number_ends a (ws1 @ d # ws2 @ b @ rest)"
  proof (cases ws1)
    case Nil
    then show ?thesis
      using dash by (simp add: spec_number_ends_def dash_not_digit dash_not_dot)
  next
    case (Cons w ws)
    then have "is_space w"
      using w1 by simp
    then show ?thesis
      using Cons by (simp add: spec_number_ends_def space_not_digit space_not_dot)
  qed
  then have m1: "match_number (a @ ws1 @ d # ws2 @ b @ rest) = Some (a, ws1 @ d # ws2 @ b @ rest)"
    using a by (rule match_number_complete [rotated])
  have d1: "dropWhile is_space (ws1 @ d # ws2 @ b @ rest) = d # ws2 @ b @ rest"
    using w1 dash by (simp add: dropWhile_spaces dash_not_space)
  from spec_number_hd [OF b] obtain c cs where bc: "b = c # cs" and c: "is_digit c"
    by blast
  have d2: "dropWhile is_space (ws2 @ b @ rest) = b @ rest"
    using w2 c dropWhile_spaces [of ws2 c "cs @ rest"] space_not_digit [of c] by (auto simp: bc)
  have "match_number (b @ rest) \<noteq> None"
    using c by (simp add: bc match_number_None)
  then obtain b' r3 where m2: "match_number (b @ rest) = Some (b', r3)"
    by (cases "match_number (b @ rest)") auto
  show ?thesis
    unfolding range_here_def m1 using d1 d2 dash m2 by simp
qed

lemma range_here_whole:
  assumes "spec_range a ws1 d ws2 b" and "spec_number_ends b rest"
  shows "range_here (a @ ws1 @ d # ws2 @ b @ rest) = Some (a, b)"
proof -
  from range_here_complete [OF assms(1), of rest] obtain b' where
    h: "range_here (a @ ws1 @ d # ws2 @ b @ rest) = Some (a, b')"
    by blast
  from assms(1) have w2: "list_all is_space ws2" and b: "spec_number b" and dash: "is_dash d"
    and w1: "list_all is_space ws1"
    by (simp_all add: spec_range_def)
  from h obtain r1 d0 r2 r3 where m1: "match_number (a @ ws1 @ d # ws2 @ b @ rest) = Some (a, r1)"
    and dd: "dropWhile is_space r1 = d0 # r2"
    and m2: "match_number (dropWhile is_space r2) = Some (b', r3)"
    by (auto simp: range_here_def split: option.splits list.splits if_splits)
  from match_number_sound [OF m1] have "r1 = ws1 @ d # ws2 @ b @ rest"
    by simp
  then have "dropWhile is_space r1 = d # ws2 @ b @ rest"
    using w1 dash by (simp add: dropWhile_spaces dash_not_space)
  with dd have r2: "r2 = ws2 @ b @ rest"
    by simp
  from spec_number_hd [OF b] obtain c cs where bc: "b = c # cs" and c: "is_digit c"
    by blast
  have "dropWhile is_space r2 = b @ rest"
    unfolding r2 using w2 c dropWhile_spaces [of ws2 c "cs @ rest"] space_not_digit [of c]
    by (auto simp: bc)
  with m2 have "match_number (b @ rest) = Some (b', r3)"
    by simp
  moreover have "match_number (b @ rest) = Some (b, rest)"
    using b assms(2) by (rule match_number_complete)
  ultimately have "b' = b"
    by simp
  with h show ?thesis by simp
qed

text \<open>\<open>range_match\<close> returns the match at the leftmost position that has one.\<close>

lemma range_match_first:
  "l = pre @ cs \<Longrightarrow> range_here cs = Some ab \<Longrightarrow>
   (\<forall>p s. l = p @ s \<and> length p < length pre \<longrightarrow> range_here s = None) \<Longrightarrow>
   range_match l = Some ab"
proof (induction pre arbitrary: l)
  case Nil
  then obtain c cs' where "cs = c # cs'"
    by (cases cs) (auto simp: range_here_Nil)
  with Nil show ?case by simp
next
  case (Cons x pre)
  have none: "range_here l = None"
    using Cons.prems(3) [rule_format, of "[]" l] by simp
  have l: "l = x # (pre @ cs)"
    using Cons.prems(1) by simp
  have "\<forall>p s. pre @ cs = p @ s \<and> length p < length pre \<longrightarrow> range_here s = None"
  proof (intro allI impI)
    fix p s
    assume "pre @ cs = p @ s \<and> length p < length pre"
    then have "l = (x # p) @ s \<and> length (x # p) < length (x # pre)"
      using l by simp
    then show "range_here s = None"
      using Cons.prems(3) by blast
  qed
  then have "range_match (pre @ cs) = Some ab"
    using Cons.IH [OF refl Cons.prems(2)] by blast
  then show ?case
    using none unfolding l by simp
qed

lemma range_match_None:
  "range_match l = None \<Longrightarrow> l = p @ s \<Longrightarrow> range_here s = None"
proof (induction l arbitrary: p)
  case Nil
  then show ?case by (simp add: range_here_Nil)
next
  case (Cons c cs)
  show ?case
  proof (cases p)
    case Nil
    with Cons.prems show ?thesis
      by (auto split: option.splits)
  next
    case (Cons x p')
    with Cons.prems Cons.IH [of p'] show ?thesis
      by (auto split: option.splits)
  qed
qed

lemma range_match_Some:
  "range_match l = Some ab \<Longrightarrow>
     \<exists>pre cs. l = pre @ cs \<and> range_here cs = Some ab \<and>
       (\<forall>p s. l = p @ s \<and> length p < length pre \<longrightarrow> range_here s = None)"
proof (induction l)
  case Nil
  then show ?case by simp
next
  case (Cons c cs)
  show ?case
  proof (cases "range_here (c # cs)")
    case (Some x)
    with Cons.prems have "c # cs = [] @ (c # cs) \<and> range_here (c # cs) = Some ab"
      by simp
    then show ?thesis
      by (metis length_0_conv less_nat_zero_code list.size(3))
  next
    case None
    with Cons.prems have "range_match cs = Some ab"
      by simp
    from Cons.IH [OF this] obtain pre s0 where
      1: "cs = pre @ s0" "range_here s0 = Some ab"
      and 2: "\<forall>p s. cs = p @ s \<and> length p < length pre \<longrightarrow> range_here s = None"
      by blast
    have "\<forall>p s. c # cs = p @ s \<and> length p < length (c # pre) \<longrightarrow> range_here s = None"
    proof (intro allI impI)
      fix p s
      assume h: "c # cs = p @ s \<and> length p < length (c # pre)"
      show "range_here s = None"
      proof (cases p)
        case Nil
        with h None show ?thesis by simp
      next
        case (Cons x p')
        with h 2 show ?thesis by auto
      qed
    qed
    moreover have "c # cs = (c # pre) @ s0"
      using 1 by simp
    ultimately show ?thesis
      using 1(2) by blast
  qed
qed


section \<open>The parser: theorems\<close>

text \<open>The loops of the scan in closed form.\<close>

lemma scan_names_eq:
  "scan_names l t nms found =
     found @ (if \<exists>nm\<in>set nms. re_test (RegExp nm) l then [make_record t l] else [])"
  by (induction nms) simp_all

lemma scan_tests_eq:
  "scan_tests l ts found =
     found @ map (\<lambda>t. make_record t l)
               (filter (\<lambda>t. \<exists>nm\<in>set (names t). re_test (RegExp nm) l) ts)"
proof (induction ts arbitrary: found)
  case Nil
  show ?case by simp
next
  case (Cons t ts)
  show ?case
    by (simp add: Cons.IH scan_names_eq [of l t "names t" found])
qed

lemma scan_lines_eq:
  "scan_lines ls found = found @ concat (map (\<lambda>l. scan_tests l tests []) ls)"
proof (induction ls arbitrary: found)
  case Nil
  show ?case by simp
next
  case (Cons l ls)
  show ?case
    by (simp add: Cons.IH scan_tests_eq [of l tests found] scan_tests_eq [of l tests "[]"])
qed

lemma make_record_value:
  "value (make_record t l) =
     (case matchAll_numbers l of [] \<Rightarrow> None | m # ms \<Rightarrow> Some (parseFloat m))"
  by (simp add: make_record_def Let_def split: list.splits)

lemma make_record_range:
  "ref_lower (make_record t l) = (case range_match l of None \<Rightarrow> None | Some (a, b) \<Rightarrow> Some (parseFloat a))"
  "ref_upper (make_record t l) = (case range_match l of None \<Rightarrow> None | Some (a, b) \<Rightarrow> Some (parseFloat b))"
  by (simp_all add: make_record_def Let_def)

text \<open>
  C4. A line \<open>l\<close> that matches a name of the entry \<open>t\<close> gives exactly one record, with the key
  of the entry and the line. Its value is \<open>null\<close> when the line has no digit. Otherwise
  the line is \<open>pre @ num @ rest\<close> with no digit in \<open>pre\<close> and \<open>num\<close> a whole numeric
  substring (an integer or a decimal numeral that cannot be extended), and the value is
  the Number that \<open>num\<close> denotes: the double nearest to the decimal value of its digits.
  This holds for every such way to split the line, so the value is the first numeric
  substring by position, whatever comes after it.
\<close>

theorem value_first_number:
  assumes "\<exists>nm\<in>set (names t). re_test (RegExp nm) l"
  shows "scan_names l t (names t) [] = [make_record t l] \<and>
    test (make_record t l) = key t \<and> line (make_record t l) = l \<and>
    ((\<forall>c\<in>set l. \<not> is_digit c) \<longrightarrow> value (make_record t l) = None) \<and>
    ((\<exists>c\<in>set l. is_digit c) \<longrightarrow>
       (\<exists>pre num rest v. l = pre @ num @ rest \<and> (\<forall>c\<in>set pre. \<not> is_digit c) \<and>
          spec_number num \<and> spec_number_ends num rest \<and>
          value (make_record t l) = Some v \<and> spec_denotes num v)) \<and>
    (\<forall>pre num rest. l = pre @ num @ rest \<and> (\<forall>c\<in>set pre. \<not> is_digit c) \<and>
          spec_number num \<and> spec_number_ends num rest \<longrightarrow>
          (\<exists>v. value (make_record t l) = Some v \<and> spec_denotes num v))"
proof -
  have rec: "scan_names l t (names t) [] = [make_record t l]"
    using assms by (simp add: scan_names_eq)
  have f1: "test (make_record t l) = key t" and f2: "line (make_record t l) = l"
    by (simp_all add: make_record_def Let_def)
  have none: "(\<forall>c\<in>set l. \<not> is_digit c) \<longrightarrow> value (make_record t l) = None"
  proof
    assume "\<forall>c\<in>set l. \<not> is_digit c"
    then have "matchAll_numbers (l @ []) = matchAll_numbers []"
      by (rule matchAll_numbers_skip)
    then show "value (make_record t l) = None"
      by (simp add: make_record_value)
  qed
  have every: "\<forall>pre num rest. l = pre @ num @ rest \<and> (\<forall>c\<in>set pre. \<not> is_digit c) \<and>
          spec_number num \<and> spec_number_ends num rest \<longrightarrow>
          (\<exists>v. value (make_record t l) = Some v \<and> spec_denotes num v)"
  proof (intro allI impI)
    fix pre num rest
    assume that: "l = pre @ num @ rest \<and> (\<forall>c\<in>set pre. \<not> is_digit c) \<and>
        spec_number num \<and> spec_number_ends num rest"
    from that obtain c cs where nc: "num = c # cs"
      using spec_number_hd by blast
    from that have "matchAll_numbers l = matchAll_numbers (num @ rest)"
      by (simp add: matchAll_numbers_skip)
    moreover have "match_number (num @ rest) = Some (num, rest)"
      using that by (simp add: match_number_complete)
    ultimately have "\<exists>ms. matchAll_numbers l = num # ms"
      using nc by auto
    then have "value (make_record t l) = Some (parseFloat num)"
      by (auto simp: make_record_value)
    then show "\<exists>v. value (make_record t l) = Some v \<and> spec_denotes num v"
      using parseFloat_denotes [of num] by blast
  qed
  have some: "(\<exists>c\<in>set l. is_digit c) \<longrightarrow>
       (\<exists>pre num rest v. l = pre @ num @ rest \<and> (\<forall>c\<in>set pre. \<not> is_digit c) \<and>
          spec_number num \<and> spec_number_ends num rest \<and>
          value (make_record t l) = Some v \<and> spec_denotes num v)"
  proof
    assume d: "\<exists>c\<in>set l. is_digit c"
    show "\<exists>pre num rest v. l = pre @ num @ rest \<and> (\<forall>c\<in>set pre. \<not> is_digit c) \<and>
          spec_number num \<and> spec_number_ends num rest \<and>
          value (make_record t l) = Some v \<and> spec_denotes num v"
    proof (cases "matchAll_numbers l")
      case Nil
      with matchAll_numbers_first [of l] d show ?thesis by simp
    next
      case (Cons m ms)
      with matchAll_numbers_first [of l] obtain pre rest where
        "l = pre @ m @ rest \<and> (\<forall>c\<in>set pre. \<not> is_digit c) \<and> spec_number m \<and> spec_number_ends m rest"
        by auto
      moreover have "value (make_record t l) = Some (parseFloat m)"
        using Cons by (simp add: make_record_value)
      ultimately have "l = pre @ m @ rest \<and> (\<forall>c\<in>set pre. \<not> is_digit c) \<and>
          spec_number m \<and> spec_number_ends m rest \<and>
          value (make_record t l) = Some (parseFloat m) \<and> spec_denotes m (parseFloat m)"
        using parseFloat_denotes [of m] by simp
      then show ?thesis
        by (intro exI)
    qed
  qed
  show ?thesis
    using rec f1 f2 none some every by (intro conjI) assumption+
qed

text \<open>
  C5. For a line \<open>l\<close> that matches a name of the entry \<open>t\<close>: when the pattern
  \<open><number> [-|\<dots>] <number>\<close> occurs in the line (\<open>a\<close>, white space, a hyphen or an en dash,
  white space, \<open>b\<close>), there is an occurrence that starts no later than any other, whose
  second number is a whole numeric substring, and \<open>ref_lower\<close> and \<open>ref_upper\<close> are the
  Numbers that its \<open>a\<close> and \<open>b\<close> denote; and this holds of every such occurrence. When the
  pattern does not occur, both are \<open>null\<close>.
\<close>

theorem inline_range:
  assumes "\<exists>nm\<in>set (names t). re_test (RegExp nm) l"
  shows "scan_names l t (names t) [] = [make_record t l] \<and>
    ((\<exists>pre a ws1 d ws2 b rest. l = pre @ a @ ws1 @ d # ws2 @ b @ rest \<and> spec_range a ws1 d ws2 b) \<longrightarrow>
       (\<exists>pre a ws1 d ws2 b rest va vb.
          l = pre @ a @ ws1 @ d # ws2 @ b @ rest \<and> spec_range a ws1 d ws2 b \<and>
          spec_number_ends b rest \<and>
          (\<forall>pre' a' ws1' d' ws2' b' rest'.
             l = pre' @ a' @ ws1' @ d' # ws2' @ b' @ rest' \<and> spec_range a' ws1' d' ws2' b' \<longrightarrow>
             length pre \<le> length pre') \<and>
          ref_lower (make_record t l) = Some va \<and> spec_denotes a va \<and>
          ref_upper (make_record t l) = Some vb \<and> spec_denotes b vb)) \<and>
    (\<forall>pre a ws1 d ws2 b rest.
       l = pre @ a @ ws1 @ d # ws2 @ b @ rest \<and> spec_range a ws1 d ws2 b \<and>
       spec_number_ends b rest \<and>
       (\<forall>pre' a' ws1' d' ws2' b' rest'.
          l = pre' @ a' @ ws1' @ d' # ws2' @ b' @ rest' \<and> spec_range a' ws1' d' ws2' b' \<longrightarrow>
          length pre \<le> length pre') \<longrightarrow>
       (\<exists>va vb. ref_lower (make_record t l) = Some va \<and> spec_denotes a va \<and>
          ref_upper (make_record t l) = Some vb \<and> spec_denotes b vb)) \<and>
    (\<not> (\<exists>pre a ws1 d ws2 b rest. l = pre @ a @ ws1 @ d # ws2 @ b @ rest \<and> spec_range a ws1 d ws2 b) \<longrightarrow>
       ref_lower (make_record t l) = None \<and> ref_upper (make_record t l) = None)"
  (is "?R \<and> (?E \<longrightarrow> ?F) \<and> ?U \<and> (\<not> ?E \<longrightarrow> ?N)")
proof -
  have rec: ?R
    using assms by (simp add: scan_names_eq)
  have occurs: "range_match l \<noteq> None"
    if "l = pre @ a @ ws1 @ d # ws2 @ b @ rest" and "spec_range a ws1 d ws2 b"
    for pre a ws1 d ws2 b rest
  proof
    assume "range_match l = None"
    then have "range_here (a @ ws1 @ d # ws2 @ b @ rest) = None"
      using that(1) by (rule range_match_None)
    then show False
      using range_here_complete [OF that(2), of rest] by simp
  qed
  have refs: "\<exists>va vb. ref_lower (make_record t l) = Some va \<and> spec_denotes a va \<and>
          ref_upper (make_record t l) = Some vb \<and> spec_denotes b vb"
    if "range_match l = Some (a, b)" for a b
  proof -
    have "ref_lower (make_record t l) = Some (parseFloat a) \<and> spec_denotes a (parseFloat a) \<and>
          ref_upper (make_record t l) = Some (parseFloat b) \<and> spec_denotes b (parseFloat b)"
      using that by (simp add: make_record_range parseFloat_denotes)
    then show ?thesis
      by (intro exI)
  qed
  have every: ?U
  proof (intro allI impI, elim conjE)
    fix pre a ws1 d ws2 b rest
    assume dec: "l = pre @ a @ ws1 @ d # ws2 @ b @ rest" and r: "spec_range a ws1 d ws2 b"
      and e: "spec_number_ends b rest"
      and left: "\<forall>pre' a' ws1' d' ws2' b' rest'.
          l = pre' @ a' @ ws1' @ d' # ws2' @ b' @ rest' \<and> spec_range a' ws1' d' ws2' b' \<longrightarrow>
          length pre \<le> length pre'"
    have here: "range_here (a @ ws1 @ d # ws2 @ b @ rest) = Some (a, b)"
      using r e by (rule range_here_whole)
    have before: "\<forall>p s. l = p @ s \<and> length p < length pre \<longrightarrow> range_here s = None"
    proof (intro allI impI, elim conjE)
      fix p s
      assume ps: "l = p @ s" and short: "length p < length pre"
      show "range_here s = None"
      proof (cases "range_here s")
        case None
        then show ?thesis .
      next
        case (Some ab)
        obtain a' b' where "ab = (a', b')"
          by (cases ab)
        with Some have "range_here s = Some (a', b')"
          by simp
        from range_here_sound [OF this] obtain ws1' d' ws2' rest' where
          "s = a' @ ws1' @ d' # ws2' @ b' @ rest'" and "spec_range a' ws1' d' ws2' b'"
          by blast
        then have "l = p @ a' @ ws1' @ d' # ws2' @ b' @ rest' \<and> spec_range a' ws1' d' ws2' b'"
          using ps by simp
        then have "length pre \<le> length p"
          using left by blast
        with short show ?thesis by simp
      qed
    qed
    have "range_match l = Some (a, b)"
      using dec here before by (rule range_match_first)
    then show "\<exists>va vb. ref_lower (make_record t l) = Some va \<and> spec_denotes a va \<and>
          ref_upper (make_record t l) = Some vb \<and> spec_denotes b vb"
      by (rule refs)
  qed
  show ?thesis
  proof (cases "range_match l")
    case None
    have no: "\<not> ?E"
    proof
      assume ?E
      then obtain pre a ws1 d ws2 b rest where
        "l = pre @ a @ ws1 @ d # ws2 @ b @ rest" and "spec_range a ws1 d ws2 b"
        by blast
      then have "range_match l \<noteq> None"
        by (rule occurs)
      with None show False by simp
    qed
    have ?N
      using None by (simp add: make_record_range)
    with rec no every show ?thesis by simp
  next
    case (Some ab)
    obtain a0 b0 where "ab = (a0, b0)"
      by (cases ab)
    with Some have m: "range_match l = Some (a0, b0)"
      by simp
    from range_match_Some [OF m] obtain pre cs where
      l: "l = pre @ cs" and h: "range_here cs = Some (a0, b0)"
      and first: "\<forall>p s. l = p @ s \<and> length p < length pre \<longrightarrow> range_here s = None"
      by blast
    from range_here_sound [OF h] obtain ws1 d ws2 rest where
      cs: "cs = a0 @ ws1 @ d # ws2 @ b0 @ rest" and r: "spec_range a0 ws1 d ws2 b0"
      and e: "spec_number_ends b0 rest"
      by blast
    have left: "\<forall>pre' a' ws1' d' ws2' b' rest'.
        l = pre' @ a' @ ws1' @ d' # ws2' @ b' @ rest' \<and> spec_range a' ws1' d' ws2' b' \<longrightarrow>
        length pre \<le> length pre'"
    proof (intro allI impI, elim conjE)
      fix pre' a' ws1' d' ws2' b' rest'
      assume o1: "l = pre' @ a' @ ws1' @ d' # ws2' @ b' @ rest'"
        and o2: "spec_range a' ws1' d' ws2' b'"
      show "length pre \<le> length pre'"
      proof (rule ccontr)
        assume "\<not> length pre \<le> length pre'"
        then have "range_here (a' @ ws1' @ d' # ws2' @ b' @ rest') = None"
          using first [rule_format, of pre' "a' @ ws1' @ d' # ws2' @ b' @ rest'"] o1 by simp
        then show False
          using range_here_complete [OF o2, of rest'] by simp
      qed
    qed
    from refs [OF m] obtain va vb where
      v: "ref_lower (make_record t l) = Some va" "spec_denotes a0 va"
        "ref_upper (make_record t l) = Some vb" "spec_denotes b0 vb"
      by blast
    have dec: "l = pre @ a0 @ ws1 @ d # ws2 @ b0 @ rest"
      using l cs by simp
    have all: "l = pre @ a0 @ ws1 @ d # ws2 @ b0 @ rest \<and> spec_range a0 ws1 d ws2 b0 \<and>
          spec_number_ends b0 rest \<and>
          (\<forall>pre' a' ws1' d' ws2' b' rest'.
             l = pre' @ a' @ ws1' @ d' # ws2' @ b' @ rest' \<and> spec_range a' ws1' d' ws2' b' \<longrightarrow>
             length pre \<le> length pre') \<and>
          ref_lower (make_record t l) = Some va \<and> spec_denotes a0 va \<and>
          ref_upper (make_record t l) = Some vb \<and> spec_denotes b0 vb"
      using dec r e left v by (intro conjI) assumption+
    have f: ?F
      by (rule exI [of _ pre], rule exI [of _ a0], rule exI [of _ ws1], rule exI [of _ d],
          rule exI [of _ ws2], rule exI [of _ b0], rule exI [of _ rest], rule exI [of _ va],
          rule exI [of _ vb], rule all)
    have yes: ?E
      using dec r by blast
    from rec f yes every show ?thesis by simp
  qed
qed

lemmas char_defs = ascii_def canonicalize_def is_digit_def is_space_def is_dash_def dot_def
  backslash_def newline_def

theorem value_first_number_witness:
  "value (make_record wbc_entry (ascii ''WBC pending'')) = None \<and>
   scan_names (ascii ''RBC (10^6/uL): 4.5'') rbc_entry (names rbc_entry) []
     = [make_record rbc_entry (ascii ''RBC (10^6/uL): 4.5'')] \<and>
   value (make_record rbc_entry (ascii ''RBC (10^6/uL): 4.5'')) = Some (Finite 10) \<and>
   value (make_record wbc_entry (ascii ''WBC 4.5 (4.0-11.0)'')) = Some (Finite (9 / 2))"
proof -
  have m1: "\<exists>nm\<in>set (names wbc_entry). re_test (RegExp nm) (ascii ''WBC pending'')"
    by (simp add: wbc_entry_def char_defs)
  have n1: "\<forall>c\<in>set (ascii ''WBC pending''). \<not> is_digit c"
    by (simp add: char_defs)
  have m2: "\<exists>nm\<in>set (names rbc_entry). re_test (RegExp nm) (ascii ''RBC (10^6/uL): 4.5'')"
    by (simp add: rbc_entry_def char_defs)
  have d2: "ascii ''RBC (10^6/uL): 4.5'' = ascii ''RBC ('' @ ascii ''10'' @ ascii ''^6/uL): 4.5'' \<and>
      (\<forall>c\<in>set (ascii ''RBC (''). \<not> is_digit c) \<and> spec_number (ascii ''10'') \<and>
      spec_number_ends (ascii ''10'') (ascii ''^6/uL): 4.5'')"
    by (simp add: char_defs spec_number_def spec_number_ends_def is_digits_def)
  have m3: "\<exists>nm\<in>set (names wbc_entry). re_test (RegExp nm) (ascii ''WBC 4.5 (4.0-11.0)'')"
    by (simp add: wbc_entry_def char_defs)
  have d3: "ascii ''WBC 4.5 (4.0-11.0)'' = ascii ''WBC '' @ ascii ''4.5'' @ ascii '' (4.0-11.0)'' \<and>
      (\<forall>c\<in>set (ascii ''WBC ''). \<not> is_digit c) \<and> spec_number (ascii ''4.5'') \<and>
      spec_number_ends (ascii ''4.5'') (ascii '' (4.0-11.0)'')"
    by (simp add: char_defs spec_number_def spec_number_ends_def is_digits_def)
  have p2: "spec_decimal (ascii ''10'') = of_int 10"
    by (simp add: spec_decimal_def char_defs)
  have p3: "spec_decimal (ascii ''4.5'') = 9 / 2"
    by (simp add: spec_decimal_def char_defs)
  have f3: "spec_float (9 / 2)"
    unfolding spec_float_def by (intro exI [of _ 9] exI [of _ "- 1"]) simp
  have b3: "(0::rat) \<le> 9 / 2" "(9 / 2 :: rat) < 2 powi 1024"
    by simp_all
  note t1 = value_first_number [OF m1]
  note t2 = value_first_number [OF m2]
  note t3 = value_first_number [OF m3]
  have 1: "value (make_record wbc_entry (ascii ''WBC pending'')) = None"
    using t1 [THEN conjunct2, THEN conjunct2, THEN conjunct2, THEN conjunct1] n1 by (rule mp)
  have 2: "scan_names (ascii ''RBC (10^6/uL): 4.5'') rbc_entry (names rbc_entry) []
     = [make_record rbc_entry (ascii ''RBC (10^6/uL): 4.5'')]"
    by (rule t2 [THEN conjunct1])
  from t2 [THEN conjunct2, THEN conjunct2, THEN conjunct2, THEN conjunct2, THEN conjunct2,
      rule_format, OF d2]
  obtain v2 where v2: "value (make_record rbc_entry (ascii ''RBC (10^6/uL): 4.5'')) = Some v2"
    and s2: "spec_denotes (ascii ''10'') v2"
    by blast
  have "v2 = Finite (of_int 10)"
    using s2 p2 by (rule spec_denotes_exact) simp_all
  with v2 have 3: "value (make_record rbc_entry (ascii ''RBC (10^6/uL): 4.5'')) = Some (Finite 10)"
    by simp
  from t3 [THEN conjunct2, THEN conjunct2, THEN conjunct2, THEN conjunct2, THEN conjunct2,
      rule_format, OF d3]
  obtain v3 where v3: "value (make_record wbc_entry (ascii ''WBC 4.5 (4.0-11.0)'')) = Some v3"
    and s3: "spec_denotes (ascii ''4.5'') v3"
    by blast
  have "v3 = Finite (9 / 2)"
    using s3 p3 f3 b3 by (rule spec_denotes_float)
  with v3 have 4: "value (make_record wbc_entry (ascii ''WBC 4.5 (4.0-11.0)'')) = Some (Finite (9 / 2))"
    by simp
  from 1 2 3 4 show ?thesis
    by (intro conjI)
qed

theorem inline_range_witness:
  "ref_lower (make_record glucose_entry (ascii ''Fasting Glucose 105 mg/dL (70-99)''))
     = Some (Finite 70) \<and>
   ref_upper (make_record glucose_entry (ascii ''Fasting Glucose 105 mg/dL (70-99)''))
     = Some (Finite 99) \<and>
   ref_lower (make_record wbc_entry (ascii ''WBC 7.2'')) = None \<and>
   ref_upper (make_record wbc_entry (ascii ''WBC 7.2'')) = None"
proof -
  define l where "l = ascii ''Fasting Glucose 105 mg/dL (70-99)''"
  define pre where "pre = ascii ''Fasting Glucose 105 mg/dL (''"
  have m1: "\<exists>nm\<in>set (names glucose_entry). re_test (RegExp nm) l"
    by (simp add: l_def glucose_entry_def char_defs)
  have dec: "l = pre @ ascii ''70'' @ [] @ 0x2D # [] @ ascii ''99'' @ ascii '')''"
    by (simp add: l_def pre_def char_defs)
  have r: "spec_range (ascii ''70'') [] 0x2D [] (ascii ''99'')"
    by (simp add: char_defs spec_range_def spec_number_def is_digits_def)
  have e: "spec_number_ends (ascii ''99'') (ascii '')'')"
    by (simp add: char_defs spec_number_ends_def)
  have len: "length pre = 27"
    by (simp add: pre_def ascii_def)
  have before: "list_all (\<lambda>i. range_here (drop i (ascii ''Fasting Glucose 105 mg/dL (70-99)'')) = None)
      [0..<27]"
    by code_simp
  have left: "\<forall>pre' a' ws1' d' ws2' b' rest'.
      l = pre' @ a' @ ws1' @ d' # ws2' @ b' @ rest' \<and> spec_range a' ws1' d' ws2' b' \<longrightarrow>
      length pre \<le> length pre'"
  proof (intro allI impI, elim conjE)
    fix pre' a' ws1' d' ws2' b' rest'
    assume o1: "l = pre' @ a' @ ws1' @ d' # ws2' @ b' @ rest'"
      and o2: "spec_range a' ws1' d' ws2' b'"
    show "length pre \<le> length pre'"
    proof (rule ccontr)
      assume "\<not> length pre \<le> length pre'"
      then have "length pre' \<in> set [0..<27]"
        using len by simp
      then have "range_here (drop (length pre') l) = None"
        using before unfolding l_def list_all_iff by blast
      moreover have "drop (length pre') l = a' @ ws1' @ d' # ws2' @ b' @ rest'"
        unfolding o1 by simp
      ultimately show False
        using range_here_complete [OF o2, of rest'] by simp
    qed
  qed
  from inline_range [OF m1, THEN conjunct2, THEN conjunct2, THEN conjunct1, rule_format,
      of pre "ascii ''70''" "[]" "0x2D" "[]" "ascii ''99''" "ascii '')''"] dec r e left
  obtain va vb where a: "ref_lower (make_record glucose_entry l) = Some va"
    and sa: "spec_denotes (ascii ''70'') va"
    and b: "ref_upper (make_record glucose_entry l) = Some vb"
    and sb: "spec_denotes (ascii ''99'') vb"
    by blast
  have pa: "spec_decimal (ascii ''70'') = of_int 70"
    by (simp add: spec_decimal_def char_defs)
  have pb: "spec_decimal (ascii ''99'') = of_int 99"
    by (simp add: spec_decimal_def char_defs)
  have "va = Finite (of_int 70)"
    using sa pa by (rule spec_denotes_exact) simp_all
  with a have 1: "ref_lower (make_record glucose_entry l) = Some (Finite 70)"
    by simp
  have "vb = Finite (of_int 99)"
    using sb pb by (rule spec_denotes_exact) simp_all
  with b have 2: "ref_upper (make_record glucose_entry l) = Some (Finite 99)"
    by simp
  have m2: "\<exists>nm\<in>set (names wbc_entry). re_test (RegExp nm) (ascii ''WBC 7.2'')"
    by (simp add: wbc_entry_def char_defs)
  have nd: "\<forall>c\<in>set (ascii ''WBC 7.2''). \<not> is_dash c"
    by (simp add: char_defs)
  have o2: "\<not> (\<exists>pre a ws1 d ws2 b rest.
      ascii ''WBC 7.2'' = pre @ a @ ws1 @ d # ws2 @ b @ rest \<and> spec_range a ws1 d ws2 b)"
  proof
    assume "\<exists>pre a ws1 d ws2 b rest.
      ascii ''WBC 7.2'' = pre @ a @ ws1 @ d # ws2 @ b @ rest \<and> spec_range a ws1 d ws2 b"
    then obtain pre a ws1 d ws2 b rest where
      e: "ascii ''WBC 7.2'' = pre @ a @ ws1 @ d # ws2 @ b @ rest" and "is_dash d"
      by (auto simp: spec_range_def)
    moreover have "d \<in> set (ascii ''WBC 7.2'')"
      unfolding e by simp
    ultimately show False
      using nd by blast
  qed
  note 3 = mp [OF inline_range [OF m2, THEN conjunct2, THEN conjunct2, THEN conjunct2] o2]
  from 1 2 3 show ?thesis
    unfolding l_def by (intro conjI) simp_all
qed

text \<open>The loop that removes duplicates, without its accumulator.\<close>

lemma dedup_loop_acc: "dedup_loop fs dedup seen = dedup @ dedup_loop fs [] seen"
proof (induction fs arbitrary: dedup seen)
  case Nil
  show ?case by simp
next
  case (Cons f fs)
  have 1: "dedup_loop fs (dedup @ [f]) (insert (test f) seen)
             = dedup @ f # dedup_loop fs [] (insert (test f) seen)"
    using Cons.IH [of "dedup @ [f]"] by simp
  have 2: "dedup_loop fs [f] (insert (test f) seen) = f # dedup_loop fs [] (insert (test f) seen)"
    using Cons.IH [of "[f]"] by simp
  show ?case
    using Cons.IH [of dedup seen] by (simp add: 1 2)
qed

lemma dedup_loop_Cons:
  "dedup_loop (f # fs) [] seen =
     (if test f \<in> seen then dedup_loop fs [] seen
      else f # dedup_loop fs [] (insert (test f) seen))"
  using dedup_loop_acc [of fs "[f]"] by simp

lemma dedup_keys: "test ` set (dedup_loop fs [] seen) = test ` set fs - seen"
proof (induction fs arbitrary: seen)
  case Nil
  show ?case by simp
next
  case (Cons f fs)
  show ?case
    unfolding dedup_loop_Cons using Cons.IH by auto
qed

lemma dedup_distinct: "distinct (map test (dedup_loop fs [] seen))"
proof (induction fs arbitrary: seen)
  case Nil
  show ?case by simp
next
  case (Cons f fs)
  have "test f \<notin> test ` set (dedup_loop fs [] (insert (test f) seen))"
    by (simp add: dedup_keys)
  then show ?case
    unfolding dedup_loop_Cons using Cons.IH by simp
qed

lemma dedup_subseq: "subseq (dedup_loop fs [] seen) fs"
proof (induction fs arbitrary: seen)
  case Nil
  show ?case by simp
next
  case (Cons f fs)
  show ?case
  proof (cases "test f \<in> seen")
    case True
    have "subseq (dedup_loop fs [] seen) (f # fs)"
      using Cons.IH [of seen] by (rule list_emb_Cons)
    with True show ?thesis
      unfolding dedup_loop_Cons by simp
  next
    case False
    with Cons.IH [of "insert (test f) seen"] show ?thesis
      unfolding dedup_loop_Cons by simp
  qed
qed

lemma dedup_first:
  "r \<in> set (dedup_loop fs [] seen) \<Longrightarrow> find (\<lambda>f. test f = test r) fs = Some r"
proof (induction fs arbitrary: seen)
  case Nil
  then show ?case by simp
next
  case (Cons f fs)
  have k: "test r \<notin> seen"
    using Cons.prems dedup_keys [of "f # fs" seen] by blast
  show ?case
  proof (cases "test f \<in> seen")
    case True
    then have "r \<in> set (dedup_loop fs [] seen)"
      using Cons.prems unfolding dedup_loop_Cons by simp
    then have "find (\<lambda>f. test f = test r) fs = Some r"
      by (rule Cons.IH)
    moreover have "test f \<noteq> test r"
      using True k by auto
    ultimately show ?thesis by simp
  next
    case False
    then have "r = f \<or> r \<in> set (dedup_loop fs [] (insert (test f) seen))"
      using Cons.prems unfolding dedup_loop_Cons by simp
    then show ?thesis
    proof
      assume "r = f"
      then show ?thesis by simp
    next
      assume in_rest: "r \<in> set (dedup_loop fs [] (insert (test f) seen))"
      then have "find (\<lambda>f. test f = test r) fs = Some r"
        by (rule Cons.IH)
      moreover have "test f \<noteq> test r"
        using in_rest dedup_keys [of fs "insert (test f) seen"] by blast
      ultimately show ?thesis by simp
    qed
  qed
qed

lemma found_records_Nil: "found_records [] = []"
proof -
  have "split_newlines [] = [] # []"
    by (subst split_newlines.simps) simp
  then show ?thesis
    by (simp add: found_records_def split_lines_def replace_nbsp_def trim_def)
qed

text \<open>
  C3. For every text (absent, empty or not), no two records of the output have the same
  test key. For a text \<open>s\<close>, the output is a subsequence of the array \<open>found\<close> (the records
  in scan order), it has every key of \<open>found\<close>, and each record of the output is the first
  record of \<open>found\<close> with its key.
\<close>

theorem parse_dedup:
  "distinct (map test (parseExtractedValues text)) \<and>
   (\<forall>s. text = Some s \<longrightarrow>
      subseq (parseExtractedValues text) (found_records s) \<and>
      test ` set (parseExtractedValues text) = test ` set (found_records s) \<and>
      (\<forall>r\<in>set (parseExtractedValues text).
         find (\<lambda>f. test f = test r) (found_records s) = Some r))"
proof (cases "text")
  case None
  then show ?thesis
    by (simp add: parseExtractedValues_def)
next
  case (Some s)
  have eq: "parseExtractedValues text = dedup_loop (found_records s) [] {}"
    using Some by (simp add: parseExtractedValues_def found_records_Nil)
  show ?thesis
    unfolding eq using Some
    by (simp add: dedup_distinct dedup_subseq dedup_keys dedup_first)
qed

theorem parse_dedup_witness:
  "distinct (map test (parseExtractedValues (Some two_hemoglobin_lines))) \<and>
   map (\<lambda>r. (test r, value r)) (parseExtractedValues (Some two_hemoglobin_lines))
     = [(ascii ''Hemoglobin'', Some (Finite 11.5)), (ascii ''WBC'', Some (Finite 7))] \<and>
   map (\<lambda>r. (test r, value r)) (found_records two_hemoglobin_lines)
     = [(ascii ''Hemoglobin'', Some (Finite 11.5)), (ascii ''WBC'', Some (Finite 7)),
        (ascii ''Hemoglobin'', Some (Finite 14))] \<and>
   subseq (parseExtractedValues (Some two_hemoglobin_lines)) (found_records two_hemoglobin_lines)"
proof -
  have 1: "map (\<lambda>r. (test r, value r)) (parseExtractedValues (Some two_hemoglobin_lines))
     = [(ascii ''Hemoglobin'', Some (Finite 11.5)), (ascii ''WBC'', Some (Finite 7))]"
    by code_simp
  have 2: "map (\<lambda>r. (test r, value r)) (found_records two_hemoglobin_lines)
     = [(ascii ''Hemoglobin'', Some (Finite 11.5)), (ascii ''WBC'', Some (Finite 7)),
        (ascii ''Hemoglobin'', Some (Finite 14))]"
    by code_simp
  note t = parse_dedup [of "Some two_hemoglobin_lines"]
  have 3: "distinct (map test (parseExtractedValues (Some two_hemoglobin_lines)))"
    by (rule t [THEN conjunct1])
  have 4: "subseq (parseExtractedValues (Some two_hemoglobin_lines)) (found_records two_hemoglobin_lines)"
    by (rule t [THEN conjunct2, rule_format, OF refl, THEN conjunct1])
  from 3 1 2 4 show ?thesis
    by (intro conjI)
qed

text \<open>
  C6. The line of the end-to-end example gives exactly one record, with test
  \<open>Hemoglobin\<close>, value 11.2 and the inline range 13.0 to 17.0. The hemoglobin rule on this
  record, with no sex given or with sex \<open>M\<close>, sets the prediction \<open>low\<close> and the override
  flag. The value is the Number that \<open>11.2\<close> denotes, the double \<open>6305039478318694 / 2^49\<close>.
\<close>

theorem spec_example:
  "parseExtractedValues (Some spec_example_line) = [spec_example_record] \<and>
   prediction (fst (applyHemoglobinRule
       (heap_of (hd (parseExtractedValues (Some spec_example_line)))) [0] []) 0)
     = Some (ascii ''low'') \<and>
   rule_overridden (fst (applyHemoglobinRule
       (heap_of (hd (parseExtractedValues (Some spec_example_line)))) [0] []) 0)
     = Some True \<and>
   prediction (fst (applyHemoglobinRule
       (heap_of (hd (parseExtractedValues (Some spec_example_line)))) [0]
       [item_of spec_example_record (Some (ascii ''M''))]) 0)
     = Some (ascii ''low'') \<and>
   rule_overridden (fst (applyHemoglobinRule
       (heap_of (hd (parseExtractedValues (Some spec_example_line)))) [0]
       [item_of spec_example_record (Some (ascii ''M''))]) 0)
     = Some True \<and>
   spec_decimal (ascii ''11.2'') = 11.2 \<and>
   spec_denotes (ascii ''11.2'') (Finite (6305039478318694 / 2 ^ 49))"
proof -
  have p: "parseExtractedValues (Some spec_example_line) = [spec_example_record]"
    by code_simp
  have c: "hemoglobin_callback items (candidate spec_example_record) =
      (candidate spec_example_record)\<lparr>prediction := Some (ascii ''low''), rule_overridden := Some True\<rparr>"
    if "rule_sex items = ascii ''M''" for items
    using that
    by (simp add: hemoglobin_callback_def hemoglobin_re_def ToNumber_def Let_def
        spec_example_record_def candidate_def extracted_value.defs prediction_rec.defs
        ascii_def canonicalize_def)
  have s1: "rule_sex [] = ascii ''M''"
    by (simp add: rule_sex_def)
  have s2: "rule_sex [item_of spec_example_record (Some (ascii ''M''))] = ascii ''M''"
    by (simp add: rule_sex_def item_of_def extracted_value.defs item.defs ascii_def
        split: option.splits)
  have rule: "prediction (fst (applyHemoglobinRule
       (heap_of (hd (parseExtractedValues (Some spec_example_line)))) [0] []) 0)
     = Some (ascii ''low'') \<and>
   rule_overridden (fst (applyHemoglobinRule
       (heap_of (hd (parseExtractedValues (Some spec_example_line)))) [0] []) 0)
     = Some True \<and>
   prediction (fst (applyHemoglobinRule
       (heap_of (hd (parseExtractedValues (Some spec_example_line)))) [0]
       [item_of spec_example_record (Some (ascii ''M''))]) 0)
     = Some (ascii ''low'') \<and>
   rule_overridden (fst (applyHemoglobinRule
       (heap_of (hd (parseExtractedValues (Some spec_example_line)))) [0]
       [item_of spec_example_record (Some (ascii ''M''))]) 0)
     = Some True"
    unfolding p by (simp add: apply_heap heap_of_def c [OF s1] c [OF s2])
  have d: "spec_decimal (ascii ''11.2'') = 11.2"
    by (simp add: spec_decimal_def char_defs)
  have "parseFloat (ascii ''11.2'') = Finite (6305039478318694 / 2 ^ 49)"
    by code_simp
  then have n: "spec_denotes (ascii ''11.2'') (Finite (6305039478318694 / 2 ^ 49))"
    using parseFloat_denotes [of "ascii ''11.2''"] by (simp only:)
  from p rule d n show ?thesis
    by (intro conjI) (elim conjE, assumption)+
qed

text \<open>
  C7. The records that a line adds to \<open>found\<close>: one for each entry that has a name
  matching the line, in the order of the registry, whatever the other entries are; one
  entry adds at most one record, and once a name matches the names after it are not
  tried.
\<close>

theorem entries_independent:
  "scan_tests l ts found =
     found @ map (\<lambda>t. make_record t l)
               (filter (\<lambda>t. \<exists>nm\<in>set (names t). re_test (RegExp nm) l) ts) \<and>
   scan_names l t nms found =
     found @ (if \<exists>nm\<in>set nms. re_test (RegExp nm) l then [make_record t l] else []) \<and>
   (re_test (RegExp nm) l \<longrightarrow> scan_names l t (nm # rest) found = found @ [make_record t l])"
  using scan_tests_eq [of l ts found] scan_names_eq [of l t nms found] by simp

theorem entries_independent_witness:
  "map test (scan_tests (ascii ''MCHC 33'') tests []) = [ascii ''MCH'', ascii ''MCHC''] \<and>
   scan_names (ascii ''Hemoglobin (g/dL) 11'') (hd tests) (names (hd tests)) []
     = [make_record (hd tests) (ascii ''Hemoglobin (g/dL) 11'')]"
proof -
  have f: "map key (filter (\<lambda>t. \<exists>nm\<in>set (names t). re_test (RegExp nm) (ascii ''MCHC 33'')) tests)
      = [ascii ''MCH'', ascii ''MCHC'']"
    by code_simp
  have k: "test \<circ> (\<lambda>t. make_record t l) = key" for l
    by (rule ext) (simp add: make_record_def Let_def)
  have 1: "map test (scan_tests (ascii ''MCHC 33'') tests []) = [ascii ''MCH'', ascii ''MCHC'']"
    using entries_independent [of "ascii ''MCHC 33''" tests "[]", THEN conjunct1] f
    by (simp add: k)
  have m: "re_test (RegExp (ascii ''Hemoglobin'')) (ascii ''Hemoglobin (g/dL) 11'')"
    by code_simp
  have n: "names (hd tests) = [ascii ''Hemoglobin'',
      ascii ''Hemoglobin '' @ [backslash] @ ascii ''(g/dL'' @ [backslash] @ ascii '')'']"
    by (simp add: tests_def)
  have 2: "scan_names (ascii ''Hemoglobin (g/dL) 11'') (hd tests) (names (hd tests)) []
     = [make_record (hd tests) (ascii ''Hemoglobin (g/dL) 11'')]"
    unfolding n
    using entries_independent [where l = "ascii ''Hemoglobin (g/dL) 11''" and found = "[]"
        and nm = "ascii ''Hemoglobin''" and t = "hd tests", THEN conjunct2, THEN conjunct2] m
    by simp
  from 1 2 show ?thesis
    by (rule conjI)
qed

text \<open>
  C8. The output is empty for an absent text, for the empty text, and for a text none of
  whose lines matches a name of the registry. The parser has no error result.
\<close>

theorem no_match_empty:
  "parseExtractedValues None = [] \<and> parseExtractedValues (Some []) = [] \<and>
   ((\<forall>l\<in>set (split_lines (replace_nbsp (replace_crlf s))). \<forall>t\<in>set tests. \<forall>nm\<in>set (names t).
       \<not> re_test (RegExp nm) l) \<longrightarrow>
    parseExtractedValues (Some s) = [])"
proof (intro conjI impI)
  show "parseExtractedValues None = []"
    by (simp add: parseExtractedValues_def)
  show "parseExtractedValues (Some []) = []"
    by (simp add: parseExtractedValues_def)
  assume h: "\<forall>l\<in>set (split_lines (replace_nbsp (replace_crlf s))). \<forall>t\<in>set tests.
      \<forall>nm\<in>set (names t). \<not> re_test (RegExp nm) l"
  have "scan_tests l tests [] = []" if "l \<in> set (split_lines (replace_nbsp (replace_crlf s)))" for l
    using h that by (simp add: scan_tests_eq filter_empty_conv)
  then have "found_records s = []"
    by (simp add: found_records_def Let_def scan_lines_eq)
  then show "parseExtractedValues (Some s) = []"
    by (simp add: parseExtractedValues_def)
qed

theorem no_match_empty_witness:
  "parseExtractedValues (Some no_test_text) = []"
proof -
  have "\<forall>l\<in>set (split_lines (replace_nbsp (replace_crlf no_test_text))). \<forall>t\<in>set tests.
      \<forall>nm\<in>set (names t). \<not> re_test (RegExp nm) l"
    by code_simp
  then show ?thesis
    by (rule no_match_empty [THEN conjunct2, THEN conjunct2, THEN mp])
qed

end
